theory Spec2Isabelle
  imports Main "HOL-Library.Word"
begin

unbundle bit_operations_syntax

section \<open>The DNS wire-format decoder of \<^verbatim>\<open>src/dnsEvents.ts\<close>\<close>

text \<open>
  The two functions modelled are \<^verbatim>\<open>decodeDnsName\<close> (lines 28-47) and
  \<^verbatim>\<open>parseDnsRrSet\<close> (lines 52-121). A \<^verbatim>\<open>Uint8Array\<close> is a list of 8-bit
  words, an offset is a natural number, a JavaScript string of ASCII characters is a
  \<open>string\<close>. The conversion \<^verbatim>\<open>ethers.getBytes\<close> from a hex string to the bytes
  belongs to the \<^verbatim>\<open>ethers\<close> library; the model starts from the bytes.
\<close>

subsection \<open>Data\<close>

type_synonym u8 = "8 word"
type_synonym bytes = "u8 list"

text \<open>\<^verbatim>\<open>new Error(message)\<close>, the only exception the decoder throws.\<close>

datatype js_error = Error string

fun message :: "js_error \<Rightarrow> string" where
  "message (Error m) = m"

text \<open>
  The object \<^verbatim>\<open>rr\<close> starts as \<^verbatim>\<open>{}\<close> and is filled field by field, so
  every field is optional; numbers are JavaScript numbers (here always integers).
\<close>

record rr =
  rr_name :: "string option"
  rr_type :: "int option"
  rr_class :: "int option"
  rr_ttl :: "int option"
  rr_rdata :: "string option"

definition empty_rr :: rr where
  "empty_rr = \<lparr>rr_name = None, rr_type = None, rr_class = None, rr_ttl = None, rr_rdata = None\<rparr>"

text \<open>
  What the decoder writes to the console: \<^verbatim>\<open>console.warn\<close> with the formatted line,
  \<^verbatim>\<open>console.error\<close> with the error's message and the offset.
\<close>

datatype console = ConsoleWarn string | ConsoleError string nat

subsection \<open>JavaScript and library primitives\<close>

text \<open>
  \<^verbatim>\<open>x << n\<close> and \<^verbatim>\<open>x | y\<close> convert their operands to 32-bit integers and give a
  signed 32-bit result.
\<close>

definition js_shl :: "int \<Rightarrow> nat \<Rightarrow> int" where
  "js_shl x n = sint (push_bit (n mod 32) (word_of_int x :: 32 word))"

definition js_or :: "int \<Rightarrow> int \<Rightarrow> int" where
  "js_or x y = sint ((word_of_int x :: 32 word) OR word_of_int y)"

text \<open>\<^verbatim>\<open>xs.slice(a, b)\<close> for offsets \<open>0 \<le> a\<close>, \<open>0 \<le> b\<close>: clamped to the array.\<close>

definition slice :: "'a list \<Rightarrow> nat \<Rightarrow> nat \<Rightarrow> 'a list" where
  "slice xs a b = take (b - a) (drop a xs)"

text \<open>
  \<^verbatim>\<open>Buffer.from(bs).toString("ascii")\<close>: Node clears the top bit of every byte.
\<close>

definition toAscii :: "bytes \<Rightarrow> string" where
  "toAscii bs = map (\<lambda>b. char_of (unat (b AND 0x7f))) bs"

text \<open>
  \<^verbatim>\<open>ethers.hexlify\<close>: \<^verbatim>\<open>0x\<close> followed by two lower-case hex digits per byte.
\<close>

definition hexDigit :: "nat \<Rightarrow> char" where
  "hexDigit n = ''0123456789abcdef'' ! n"

definition hexlify :: "bytes \<Rightarrow> string" where
  "hexlify bs =
     ''0x'' @ concat (map (\<lambda>b. [hexDigit (unat (drop_bit 4 (b AND 0xf0))),
                                  hexDigit (unat (b AND 0x0f))]) bs)"

text \<open>
  The field assembly of \<^verbatim>\<open>parseDnsRrSet\<close>, written there in line:
  \<^verbatim>\<open>(rawBytes[offset] << 8) | rawBytes[offset + 1]\<close> for type, class and RDLENGTH
  (lines 76, 81, 95) and the four-byte expression of the TTL (lines 86-90).
\<close>

definition shiftOr16 :: "bytes \<Rightarrow> nat \<Rightarrow> int" where
  "shiftOr16 rawBytes offset =
     js_or (js_shl (uint (rawBytes ! offset)) 8) (uint (rawBytes ! (offset + 1)))"

definition shiftOr32 :: "bytes \<Rightarrow> nat \<Rightarrow> int" where
  "shiftOr32 rawBytes offset =
     js_or (js_or (js_or (js_shl (uint (rawBytes ! offset)) 24)
                         (js_shl (uint (rawBytes ! (offset + 1))) 16))
                  (js_shl (uint (rawBytes ! (offset + 2))) 8))
           (uint (rawBytes ! (offset + 3)))"

text \<open>The line of \<^verbatim>\<open>console.warn\<close> (lines 69-71).\<close>

definition warnLine :: "string \<Rightarrow> string \<Rightarrow> console" where
  "warnLine nm ownerNameFromEvent =
     ConsoleWarn (''  [WARN] RR name ('' @ nm @ '') differs from event name ('' @
                  ownerNameFromEvent @ '')'')"

subsection \<open>The name decoder\<close>

text \<open>
  The \<^verbatim>\<open>while\<close> loop of \<^verbatim>\<open>decodeDnsName\<close>, on its two variables \<^verbatim>\<open>name\<close> and
  \<^verbatim>\<open>currentOffset\<close>. The result is \<^verbatim>\<open>{ name, newOffset }\<close> or the thrown error.
\<close>

function decodeDnsName_loop :: "bytes \<Rightarrow> string \<Rightarrow> nat \<Rightarrow> js_error + (string \<times> nat)" where
  "decodeDnsName_loop bytes name currentOffset =
     (if currentOffset < length bytes then
        (let len = unat (bytes ! currentOffset);
             currentOffset1 = currentOffset + 1
         in if len = 0 then Inr (name, currentOffset1)
            else if currentOffset1 + len > length bytes
            then Inl (Error ''Buffer too short for DnsName label'')
            else decodeDnsName_loop bytes
                   (name @ toAscii (slice bytes currentOffset1 (currentOffset1 + len)) @ ''.'')
                   (currentOffset1 + len))
      else Inr (name, currentOffset))"
  by pat_completeness auto
termination
  by (relation "measure (\<lambda>(bytes, name, currentOffset). length bytes - currentOffset)") auto

declare decodeDnsName_loop.simps [simp del]

definition decodeDnsName :: "bytes \<Rightarrow> nat \<Rightarrow> js_error + (string \<times> nat)" where
  "decodeDnsName bytes offset = decodeDnsName_loop bytes [] offset"

subsection \<open>The resource-record set decoder\<close>

text \<open>
  One pass through the body of the \<^verbatim>\<open>while\<close> loop of \<^verbatim>\<open>parseDnsRrSet\<close>
  (lines 62-118). It ends in one of three ways, each with the value \<^verbatim>\<open>offset\<close> has
  then and the console lines written: a \<^verbatim>\<open>break\<close> at a bounds check, an exception of
  \<^verbatim>\<open>decodeDnsName\<close> (caught at line 110), or \<^verbatim>\<open>records.push(rr)\<close>.
\<close>

datatype iteration =
  Truncated nat "console list"
| Threw js_error nat "console list"
| Pushed rr nat "console list"

definition parseDnsRrSet_body :: "bytes \<Rightarrow> string \<Rightarrow> nat \<Rightarrow> iteration" where
  "parseDnsRrSet_body rawBytes ownerNameFromEvent offset =
     (case decodeDnsName rawBytes offset of
        Inl e \<Rightarrow> Threw e offset []
      | Inr (nm, newOffset) \<Rightarrow>
          (let rr1 = empty_rr\<lparr>rr_name := Some nm\<rparr>;
               offset1 = newOffset;
               lines = (if nm \<noteq> ownerNameFromEvent then [warnLine nm ownerNameFromEvent]
                        else [])
           in if offset1 + 2 > length rawBytes then Truncated offset1 lines
              else
          (let rr2 = rr1\<lparr>rr_type := Some (shiftOr16 rawBytes offset1)\<rparr>;
               offset2 = offset1 + 2
           in if offset2 + 2 > length rawBytes then Truncated offset2 lines
              else
          (let rr3 = rr2\<lparr>rr_class := Some (shiftOr16 rawBytes offset2)\<rparr>;
               offset3 = offset2 + 2
           in if offset3 + 4 > length rawBytes then Truncated offset3 lines
              else
          (let rr4 = rr3\<lparr>rr_ttl := Some (shiftOr32 rawBytes offset3)\<rparr>;
               offset4 = offset3 + 4
           in if offset4 + 2 > length rawBytes then Truncated offset4 lines
              else
          (let rdLength = shiftOr16 rawBytes offset4;
               offset5 = offset4 + 2
           in if int offset5 + rdLength > int (length rawBytes) then Truncated offset5 lines
              else
          (let rdataBytes = slice rawBytes offset5 (nat (int offset5 + rdLength));
               offset6 = nat (int offset5 + rdLength)
           in if rr_type rr4 = Some 2 \<and> rr_class rr4 = Some 1
              then (case decodeDnsName rdataBytes 0 of
                      Inl e \<Rightarrow> Threw e offset6 lines
                    | Inr (nm2, newOffset2) \<Rightarrow>
                        Pushed (rr4\<lparr>rr_rdata := Some nm2\<rparr>) offset6 lines)
              else Pushed (rr4\<lparr>rr_rdata := Some (hexlify rdataBytes)\<rparr>) offset6 lines)))))))"

text \<open>
  The \<^verbatim>\<open>while\<close> loop of \<^verbatim>\<open>parseDnsRrSet\<close> on its variables \<^verbatim>\<open>offset\<close> and
  \<^verbatim>\<open>records\<close>, with the console output so far. It returns the three as they are when
  the loop is left. Its termination is proved below, from the fact that a pass which
  pushes a record moves the offset forward.
\<close>

function parseDnsRrSet_loop ::
  "bytes \<Rightarrow> string \<Rightarrow> nat \<Rightarrow> rr list \<Rightarrow> console list \<Rightarrow> rr list \<times> nat \<times> console list" where
  "parseDnsRrSet_loop rawBytes ownerNameFromEvent offset records out =
     (if offset < length rawBytes then
        (case parseDnsRrSet_body rawBytes ownerNameFromEvent offset of
           Truncated offset' lines \<Rightarrow> (records, offset', out @ lines)
         | Threw e offset' lines \<Rightarrow>
             (records, offset', out @ lines @ [ConsoleError (message e) offset'])
         | Pushed rr offset' lines \<Rightarrow>
             parseDnsRrSet_loop rawBytes ownerNameFromEvent offset' (records @ [rr]) (out @ lines))
      else (records, offset, out))"
  by pat_completeness auto
text \<open>
  The same loop with nothing assumed about its termination: a run that never left the
  loop would be \<open>None\<close>.
\<close>

partial_function (option) parseDnsRrSet_while ::
  "bytes \<Rightarrow> string \<Rightarrow> nat \<Rightarrow> rr list \<Rightarrow> console list \<Rightarrow> (rr list \<times> nat \<times> console list) option" where
  "parseDnsRrSet_while rawBytes ownerNameFromEvent offset records out =
     (if offset < length rawBytes then
        (case parseDnsRrSet_body rawBytes ownerNameFromEvent offset of
           Truncated offset' lines \<Rightarrow> Some (records, offset', out @ lines)
         | Threw e offset' lines \<Rightarrow>
             Some (records, offset', out @ lines @ [ConsoleError (message e) offset'])
         | Pushed rr offset' lines \<Rightarrow>
             parseDnsRrSet_while rawBytes ownerNameFromEvent offset' (records @ [rr]) (out @ lines))
      else Some (records, offset, out))"

text \<open>
  \<^verbatim>\<open>parseDnsRrSet\<close>: the event's owner name is decoded outside the \<^verbatim>\<open>try\<close>, so its
  error leaves the function; otherwise the function returns \<^verbatim>\<open>records\<close>, paired here
  with what it wrote to the console.
\<close>

definition parseDnsRrSet :: "bytes \<Rightarrow> bytes \<Rightarrow> js_error + (rr list \<times> console list)" where
  "parseDnsRrSet rawBytes eventOwnerName =
     (case decodeDnsName eventOwnerName 0 of
        Inl e \<Rightarrow> Inl e
      | Inr (ownerNameFromEvent, newOffset) \<Rightarrow>
          (case parseDnsRrSet_loop rawBytes ownerNameFromEvent 0 [] [] of
             (records, offset, out) \<Rightarrow> Inr (records, out)))"

text \<open>
  The passes of the loop that end in \<^verbatim>\<open>records.push(rr)\<close>, one behind the other: from
  \<open>offset\<close> on, successive passes push the records \<open>rrs\<close> in this order, write
  \<open>lines\<close> to the console and leave the offset at \<open>offset''\<close>. These are the records
  decoded in the iterations before the pass that starts at \<open>offset''\<close>.
\<close>

inductive parseDnsRrSet_pushes ::
  "bytes \<Rightarrow> string \<Rightarrow> nat \<Rightarrow> rr list \<Rightarrow> console list \<Rightarrow> nat \<Rightarrow> bool" where
  none: "parseDnsRrSet_pushes rawBytes ownerNameFromEvent offset [] [] offset"
| push: "offset < length rawBytes \<Longrightarrow>
         parseDnsRrSet_body rawBytes ownerNameFromEvent offset = Pushed rr offset' lines \<Longrightarrow>
         parseDnsRrSet_pushes rawBytes ownerNameFromEvent offset' rrs rest offset'' \<Longrightarrow>
         parseDnsRrSet_pushes rawBytes ownerNameFromEvent offset (rr # rrs) (lines @ rest) offset''"

code_pred parseDnsRrSet_pushes .

subsection \<open>The loop of the test script\<close>

text \<open>
  The \<^verbatim>\<open>while\<close> loop of the script \<^verbatim>\<open>testDnsPacketLib.ts\<close> (lines 40-58 of its
  source), with the guard \<^verbatim>\<open>consumedLength === 0\<close>. The two functions of the
  \<^verbatim>\<open>dns-packet\<close> library it calls are parameters: \<^verbatim>\<open>answer.decode\<close> gives a record,
  \<^verbatim>\<open>null\<close> or \<^verbatim>\<open>undefined\<close> (\<open>None\<close>), or throws, which leaves the loop for the
  \<^verbatim>\<open>catch\<close> around it; \<^verbatim>\<open>answer.encodingLength\<close> gives a number of bytes. Nothing is
  assumed about the termination of the loop: a run that never left it would be \<open>None\<close>.
\<close>

partial_function (option) testDnsPacketLib_while ::
  "(bytes \<Rightarrow> nat \<Rightarrow> js_error + 'a option) \<Rightarrow> ('a \<Rightarrow> nat) \<Rightarrow> bytes \<Rightarrow> nat \<Rightarrow> 'a list \<Rightarrow>
     (js_error + 'a list \<times> nat) option" where
  "testDnsPacketLib_while decode encodingLength recordsBuffer offset decodedRecords =
     (if offset < length recordsBuffer then
        (case decode recordsBuffer offset of
           Inl e \<Rightarrow> Some (Inl e)
         | Inr None \<Rightarrow> Some (Inr (decodedRecords, offset))
         | Inr (Some rr) \<Rightarrow>
             (let decodedRecords1 = decodedRecords @ [rr];
                  consumedLength = encodingLength rr
              in if consumedLength = 0 then Some (Inr (decodedRecords1, offset))
                 else testDnsPacketLib_while decode encodingLength recordsBuffer
                        (offset + consumedLength) decodedRecords1))
      else Some (Inr (decodedRecords, offset)))"

subsection \<open>Test buffers\<close>

text \<open>
  The two example buffers of the repository (the first record of \<^verbatim>\<open>recordHexData\<close> and
  the example in the comment below it in \<^verbatim>\<open>testDnsPacketLib.ts\<close>): an NS record of
  \<^verbatim>\<open>moe.box.\<close> and an A record of \<^verbatim>\<open>bookings.ohms.box.\<close>, with the records they
  decode to.
\<close>

abbreviation scenarioA :: bytes where
  "scenarioA \<equiv>
     [0x03, 0x6d, 0x6f, 0x65, 0x03, 0x62, 0x6f, 0x78, 0x00,
      0x00, 0x02, 0x00, 0x01, 0x00, 0x00, 0x38, 0x40, 0x00, 0x19,
      0x05, 0x64, 0x65, 0x72, 0x65, 0x6b, 0x02, 0x6e, 0x73,
      0x0a, 0x63, 0x6c, 0x6f, 0x75, 0x64, 0x66, 0x6c, 0x61, 0x72, 0x65,
      0x03, 0x63, 0x6f, 0x6d, 0x00]"

abbreviation scenarioA_rr :: rr where
  "scenarioA_rr \<equiv>
     \<lparr>rr_name = Some ''moe.box.'', rr_type = Some 2, rr_class = Some 1,
      rr_ttl = Some 14400, rr_rdata = Some ''derek.ns.cloudflare.com.''\<rparr>"

abbreviation scenarioB :: bytes where
  "scenarioB \<equiv>
     [0x08, 0x62, 0x6f, 0x6f, 0x6b, 0x69, 0x6e, 0x67, 0x73, 0x04, 0x6f, 0x68, 0x6d, 0x73,
      0x03, 0x62, 0x6f, 0x78, 0x00,
      0x00, 0x01, 0x00, 0x01, 0x00, 0x00, 0x0e, 0x10, 0x00, 0x04, 0xac, 0x42, 0x00, 0x46]"

abbreviation scenarioB_rr :: rr where
  "scenarioB_rr \<equiv>
     \<lparr>rr_name = Some ''bookings.ohms.box.'', rr_type = Some 1, rr_class = Some 1,
      rr_ttl = Some 3600, rr_rdata = Some ''0xac420046''\<rparr>"

section \<open>Field assembly, cursor and termination\<close>

subsection \<open>Arithmetic of the shift-and-or field assembly\<close>

lemma sint_word_of_int_small:
  "0 \<le> k \<Longrightarrow> k < 2 ^ 31 \<Longrightarrow> sint (word_of_int k :: 32 word) = k"
  by (simp add: sint_sbintrunc' signed_take_bit_int_eq_self)

lemma js_or_small:
  assumes "0 \<le> x" "x < 2 ^ 31" "0 \<le> y" "y < 2 ^ 31"
  shows "js_or x y = x OR y"
proof -
  have a: "(word_of_int x :: 32 word) OR word_of_int y = word_of_int (x OR y)"
    by (simp add: word_wi_log_defs(3))
  have b: "0 \<le> x OR y" using assms by simp
  have c: "x OR y < 2 ^ 31" using assms by (intro OR_upper)
  show ?thesis unfolding js_or_def a using b c by (rule sint_word_of_int_small)
qed

lemma js_shl_small:
  assumes "0 \<le> x" "x * 2 ^ n < 2 ^ 31" "n < 32"
  shows "js_shl x n = x * 2 ^ n"
proof -
  have e: "push_bit n (word_of_int x :: 32 word) = word_of_int (x * 2 ^ n)"
    by (simp add: push_bit_eq_mult)
  have nn: "0 \<le> x * 2 ^ n" using assms by simp
  have "sint (push_bit n (word_of_int x :: 32 word)) = x * 2 ^ n"
    unfolding e using nn assms(2) by (rule sint_word_of_int_small)
  then show ?thesis using assms by (simp add: js_shl_def)
qed

lemma or_byte_add:
  fixes b :: u8
  shows "(k * 256) OR uint b = k * 256 + uint b"
proof -
  have "push_bit 8 k + uint b = push_bit 8 k OR uint b"
    by (rule disjunctive_add) (auto simp: bit_push_bit_iff_int bit_uint_iff)
  then show ?thesis by (simp add: push_bit_eq_mult)
qed

lemma uint_u8_bounds:
  fixes b :: u8
  shows "0 \<le> uint b" "uint b < 256"
  using uint_bounded [of b] by simp_all

text \<open>Two bytes assembled by \<^verbatim>\<open>(a << 8) | b\<close> are the big-endian 16-bit number.\<close>

lemma be16_value:
  fixes a b :: u8
  shows "js_or (js_shl (uint a) 8) (uint b) = uint a * 256 + uint b"
proof -
  have a: "0 \<le> uint a" "uint a < 256" and b: "0 \<le> uint b" "uint b < 256"
    by (rule uint_u8_bounds)+
  have s: "js_shl (uint a) 8 = uint a * 256"
    using a js_shl_small [of "uint a" 8] by simp
  have "js_or (uint a * 256) (uint b) = (uint a * 256) OR uint b"
    using a b by (intro js_or_small) simp_all
  then show ?thesis by (simp add: s or_byte_add)
qed

lemma shiftOr16_value:
  "shiftOr16 rawBytes offset = uint (rawBytes ! offset) * 256 + uint (rawBytes ! (offset + 1))"
  by (simp add: shiftOr16_def be16_value)

lemma shiftOr16_range:
  "0 \<le> shiftOr16 rawBytes offset" "shiftOr16 rawBytes offset < 65536"
  using uint_u8_bounds [of "rawBytes ! offset"] uint_u8_bounds [of "rawBytes ! (offset + 1)"]
  by (simp_all add: shiftOr16_value)

text \<open>
  The four bytes of the TTL assembled by \<^verbatim>\<open>(a << 24) | (b << 16) | (c << 8) | d\<close> are
  the big-endian 32-bit number read as a signed one: negative when the first byte is 128
  or more.
\<close>

lemma shiftOr32_word:
  fixes a b c d :: u8
  shows "js_or (js_or (js_or (js_shl (uint a) 24) (js_shl (uint b) 16)) (js_shl (uint c) 8)) (uint d)
     = sint (push_bit 24 (ucast a :: 32 word) OR push_bit 16 (ucast b) OR push_bit 8 (ucast c) OR ucast d)"
  by (simp add: js_or_def js_shl_def or.assoc)

lemma or_push_bit_add:
  fixes x y :: int
  assumes "0 \<le> y" "y < 2 ^ n"
  shows "push_bit n x OR y = push_bit n x + y"
proof -
  have y: "take_bit n y = y" using assms by (simp add: take_bit_int_eq_self)
  have "push_bit n x + take_bit n y = push_bit n x OR take_bit n y"
    by (rule disjunctive_add) (auto simp: bit_push_bit_iff_int bit_take_bit_iff)
  then show ?thesis unfolding y by simp
qed

lemma uint_push_bit_ucast:
  fixes a :: u8
  assumes "n \<le> 24"
  shows "uint (push_bit n (ucast a :: 32 word)) = push_bit n (uint a)"
  using assms by (intro bit_eqI) (auto simp: bit_simps dest: bit_imp_le_length)

lemma bytes_or_sum:
  fixes a b c d :: u8
  shows "uint (push_bit 24 (ucast a :: 32 word) OR push_bit 16 (ucast b) OR push_bit 8 (ucast c) OR ucast d)
     = uint a * 16777216 + uint b * 65536 + uint c * 256 + uint d"
proof -
  note bs = uint_u8_bounds [of a] uint_u8_bounds [of b] uint_u8_bounds [of c] uint_u8_bounds [of d]
  have ud: "uint (ucast d :: 32 word) = uint d"
    using uint_push_bit_ucast [of 0 d] by simp
  have 1: "push_bit 8 (uint c) OR uint d = uint c * 256 + uint d"
    using or_push_bit_add [of "uint d" 8 "uint c"] bs by (simp add: push_bit_eq_mult)
  have 2: "push_bit 16 (uint b) OR (uint c * 256 + uint d) = uint b * 65536 + (uint c * 256 + uint d)"
    using or_push_bit_add [of "uint c * 256 + uint d" 16 "uint b"] bs by (simp add: push_bit_eq_mult)
  have 3: "push_bit 24 (uint a) OR (uint b * 65536 + (uint c * 256 + uint d))
             = uint a * 16777216 + (uint b * 65536 + (uint c * 256 + uint d))"
    using or_push_bit_add [of "uint b * 65536 + (uint c * 256 + uint d)" 24 "uint a"] bs
    by (simp add: push_bit_eq_mult)
  show ?thesis
    unfolding uint_or uint_push_bit_ucast [of 24, simplified] uint_push_bit_ucast [of 16, simplified]
      uint_push_bit_ucast [of 8, simplified] ud or.assoc 1 2 3
    by simp
qed

lemma signed_take_bit_31:
  fixes u :: int
  assumes "0 \<le> u" "u < 4294967296"
  shows "signed_take_bit 31 u = (if u < 2147483648 then u else u - 4294967296)"
proof (cases "u < 2147483648")
  case True
  then show ?thesis using assms by (simp add: signed_take_bit_int_eq_self)
next
  case False
  have "take_bit (Suc 31) u = take_bit (Suc 31) (u - 2 ^ 32)"
    by (simp add: take_bit_eq_mod)
  then have "signed_take_bit 31 u = signed_take_bit 31 (u - 2 ^ 32)"
    by (simp only: signed_take_bit_eq_iff_take_bit_eq)
  also have "\<dots> = u - 2 ^ 32"
    using False assms by (intro signed_take_bit_int_eq_self) simp_all
  finally show ?thesis using False by simp
qed

lemma shiftOr32_value:
  "shiftOr32 rawBytes offset =
     (let u = uint (rawBytes ! offset) * 16777216 + uint (rawBytes ! (offset + 1)) * 65536 +
              uint (rawBytes ! (offset + 2)) * 256 + uint (rawBytes ! (offset + 3))
      in if uint (rawBytes ! offset) < 128 then u else u - 4294967296)"
proof -
  let ?a = "rawBytes ! offset" and ?b = "rawBytes ! (offset + 1)"
  and ?c = "rawBytes ! (offset + 2)" and ?d = "rawBytes ! (offset + 3)"
  let ?u = "uint ?a * 16777216 + uint ?b * 65536 + uint ?c * 256 + uint ?d"
  note bs = uint_u8_bounds [of ?a] uint_u8_bounds [of ?b] uint_u8_bounds [of ?c]
    uint_u8_bounds [of ?d]
  have u: "0 \<le> ?u" "?u < 4294967296" using bs by simp_all
  have top: "?u < 2147483648 \<longleftrightarrow> uint ?a < 128" using bs by linarith
  have "shiftOr32 rawBytes offset = signed_take_bit 31 ?u"
    unfolding shiftOr32_def shiftOr32_word sint_uint bytes_or_sum by simp
  also have "\<dots> = (if ?u < 2147483648 then ?u else ?u - 4294967296)"
    using u by (rule signed_take_bit_31)
  finally show ?thesis unfolding top Let_def .
qed

subsection \<open>The cursor of the name decoder\<close>

lemma decodeDnsName_loop_offset:
  "decodeDnsName_loop bytes name cur = Inr (nm, off) \<Longrightarrow>
     cur \<le> off \<and> off \<le> max cur (length bytes) \<and> (cur < length bytes \<longrightarrow> cur < off)"
proof (induction bytes name cur rule: decodeDnsName_loop.induct)
  case (1 bytes name cur)
  show ?case
  proof (cases "cur < length bytes")
    case False
    with "1.prems" show ?thesis by (simp add: decodeDnsName_loop.simps)
  next
    case True
    let ?n = "unat (bytes ! cur)"
    show ?thesis
    proof (cases "?n = 0")
      case z: True
      with True "1.prems" show ?thesis by (simp add: decodeDnsName_loop.simps)
    next
      case nz: False
      show ?thesis
      proof (cases "cur + 1 + ?n > length bytes")
        case True
        with \<open>cur < length bytes\<close> nz "1.prems" show ?thesis
          by (simp add: decodeDnsName_loop.simps)
      next
        case fits: False
        from True nz fits "1.prems"
        have rec: "decodeDnsName_loop bytes
               (name @ toAscii (slice bytes (cur + 1) (cur + 1 + ?n)) @ ''.'') (cur + 1 + ?n)
               = Inr (nm, off)"
          by (subst (asm) decodeDnsName_loop.simps) (simp add: Let_def)
        from "1.IH" [OF True refl refl nz fits rec] fits show ?thesis by auto
      qed
    qed
  qed
qed

lemma decodeDnsName_offset:
  assumes "decodeDnsName bytes offset = Inr (nm, off)" "offset < length bytes"
  shows "offset < off" "off \<le> length bytes"
  using decodeDnsName_loop_offset [of bytes "[]" offset nm off] assms
  by (simp_all add: decodeDnsName_def)

subsection \<open>One pass of the loop, flattened\<close>

text \<open>
  The same pass with the intermediate offsets written out from the offset \<open>o1\<close> behind
  the owner name.
\<close>

lemma parseDnsRrSet_body_Inl:
  "decodeDnsName rawBytes offset = Inl e \<Longrightarrow>
     parseDnsRrSet_body rawBytes owner offset = Threw e offset []"
  by (simp add: parseDnsRrSet_body_def)

lemma parseDnsRrSet_body_Inr:
  assumes "decodeDnsName rawBytes offset = Inr (nm, o1)"
  shows "parseDnsRrSet_body rawBytes owner offset =
     (let lines = (if nm \<noteq> owner then [warnLine nm owner] else []);
          end = nat (int (o1 + 10) + shiftOr16 rawBytes (o1 + 8));
          rr4 = \<lparr>rr_name = Some nm, rr_type = Some (shiftOr16 rawBytes o1),
                 rr_class = Some (shiftOr16 rawBytes (o1 + 2)),
                 rr_ttl = Some (shiftOr32 rawBytes (o1 + 4)), rr_rdata = None\<rparr>
      in if length rawBytes < o1 + 2 then Truncated o1 lines
         else if length rawBytes < o1 + 4 then Truncated (o1 + 2) lines
         else if length rawBytes < o1 + 8 then Truncated (o1 + 4) lines
         else if length rawBytes < o1 + 10 then Truncated (o1 + 8) lines
         else if int (length rawBytes) < int (o1 + 10) + shiftOr16 rawBytes (o1 + 8)
         then Truncated (o1 + 10) lines
         else if shiftOr16 rawBytes o1 = 2 \<and> shiftOr16 rawBytes (o1 + 2) = 1
         then (case decodeDnsName (slice rawBytes (o1 + 10) end) 0 of
                 Inl e \<Rightarrow> Threw e end lines
               | Inr (nm2, newOffset2) \<Rightarrow> Pushed (rr4\<lparr>rr_rdata := Some nm2\<rparr>) end lines)
         else Pushed (rr4\<lparr>rr_rdata := Some (hexlify (slice rawBytes (o1 + 10) end))\<rparr>)
                end lines)"
proof -
  have a: "o1 + 2 + 2 = o1 + 4" "o1 + 4 + 4 = o1 + 8" "o1 + 8 + 2 = o1 + 10"
    by simp_all
  show ?thesis
    by (simp only: parseDnsRrSet_body_def assms sum.case prod.case Let_def a empty_rr_def
          rr.simps option.inject)
qed

text \<open>A pass that pushes a record has read at least eleven bytes, all inside the buffer.\<close>

lemma parseDnsRrSet_body_Pushed:
  assumes "parseDnsRrSet_body rawBytes owner offset = Pushed r off w" "offset < length rawBytes"
  shows "offset + 11 \<le> off" "off \<le> length rawBytes"
proof -
  obtain nm o1 where d: "decodeDnsName rawBytes offset = Inr (nm, o1)"
    using assms(1) by (cases "decodeDnsName rawBytes offset") (auto simp: parseDnsRrSet_body_Inl)
  have o1: "offset < o1" by (rule decodeDnsName_offset(1) [OF d assms(2)])
  have len: "0 \<le> shiftOr16 rawBytes (o1 + 8)" by (rule shiftOr16_range)
  have "off = nat (int (o1 + 10) + shiftOr16 rawBytes (o1 + 8)) \<and>
        int (o1 + 10) + shiftOr16 rawBytes (o1 + 8) \<le> int (length rawBytes)"
    using assms(1) unfolding parseDnsRrSet_body_Inr [OF d] Let_def
    by (simp split: if_splits sum.splits prod.splits)
  with o1 len show "offset + 11 \<le> off" "off \<le> length rawBytes" by auto
qed

subsection \<open>Termination of the loop\<close>

termination parseDnsRrSet_loop
proof (relation "measure (\<lambda>(rawBytes, owner, offset, records, out). length rawBytes - offset)",
       goal_cases)
  case 1
  show ?case by simp
next
  case 2
  then show ?case
    using parseDnsRrSet_body_Pushed(1) by fastforce
qed

declare parseDnsRrSet_loop.simps [simp del]

section \<open>Properties of the name decoder\<close>

subsection \<open>The accumulated name, and the first length byte\<close>

lemma decodeDnsName_loop_prepend:
  "decodeDnsName_loop bytes (pfx @ name) cur =
     (case decodeDnsName_loop bytes name cur of
        Inl e \<Rightarrow> Inl e
      | Inr (s, off) \<Rightarrow> Inr (pfx @ s, off))"
proof (induction bytes name cur rule: decodeDnsName_loop.induct)
  case (1 bytes name cur)
  let ?n = "unat (bytes ! cur)"
  let ?l = "toAscii (slice bytes (cur + 1) (cur + 1 + ?n)) @ ''.''"
  show ?case
  proof (cases "cur < length bytes \<and> ?n \<noteq> 0 \<and> \<not> cur + 1 + ?n > length bytes")
    case False
    then show ?thesis
      by (subst decodeDnsName_loop.simps, subst (2) decodeDnsName_loop.simps)
         (auto simp: Let_def)
  next
    case True
    then have c: "cur < length bytes" and nz: "?n \<noteq> 0" and fits: "\<not> cur + 1 + ?n > length bytes"
      by simp_all
    have s1: "decodeDnsName_loop bytes name cur = decodeDnsName_loop bytes (name @ ?l) (cur + 1 + ?n)"
      for name
      using True by (subst decodeDnsName_loop.simps) (simp add: Let_def)
    have "decodeDnsName_loop bytes (pfx @ name @ ?l) (cur + 1 + ?n) =
       (case decodeDnsName_loop bytes (name @ ?l) (cur + 1 + ?n) of
          Inl e \<Rightarrow> Inl e | Inr (s, off) \<Rightarrow> Inr (pfx @ s, off))"
      by (rule "1.IH" [OF c refl refl nz fits])
    then show ?thesis
      using s1 [of name] s1 [of "pfx @ name"] by simp
  qed
qed

lemma decodeDnsName_end:
  "length bytes \<le> offset \<Longrightarrow> decodeDnsName bytes offset = Inr ([], offset)"
  by (simp add: decodeDnsName_def decodeDnsName_loop.simps)

lemma decodeDnsName_null:
  "offset < length bytes \<Longrightarrow> bytes ! offset = 0 \<Longrightarrow>
     decodeDnsName bytes offset = Inr ([], offset + 1)"
  by (simp add: decodeDnsName_def decodeDnsName_loop.simps)

lemma decodeDnsName_short:
  "offset < length bytes \<Longrightarrow> bytes ! offset \<noteq> 0 \<Longrightarrow>
   length bytes < offset + 1 + unat (bytes ! offset) \<Longrightarrow>
     decodeDnsName bytes offset = Inl (Error ''Buffer too short for DnsName label'')"
  by (simp add: decodeDnsName_def decodeDnsName_loop.simps unat_eq_0)

lemma decodeDnsName_label:
  assumes "offset < length bytes" "bytes ! offset \<noteq> 0"
    "offset + 1 + unat (bytes ! offset) \<le> length bytes"
  shows "decodeDnsName bytes offset =
     (case decodeDnsName bytes (offset + 1 + unat (bytes ! offset)) of
        Inl e \<Rightarrow> Inl e
      | Inr (s, off) \<Rightarrow>
          Inr (toAscii (slice bytes (offset + 1) (offset + 1 + unat (bytes ! offset))) @ ''.'' @ s,
               off))"
proof -
  let ?n = "unat (bytes ! offset)"
  let ?l = "toAscii (slice bytes (offset + 1) (offset + 1 + ?n)) @ ''.''"
  have "decodeDnsName bytes offset = decodeDnsName_loop bytes (?l @ []) (offset + 1 + ?n)"
    using assms unfolding decodeDnsName_def
    by (subst decodeDnsName_loop.simps) (simp add: Let_def unat_eq_0)
  then show ?thesis
    unfolding decodeDnsName_loop_prepend decodeDnsName_def by (simp split: sum.splits)
qed

lemma decodeDnsName_loop_error:
  "decodeDnsName_loop bytes name cur = Inl e \<Longrightarrow>
     e = Error ''Buffer too short for DnsName label''"
proof (induction bytes name cur rule: decodeDnsName_loop.induct)
  case (1 bytes name cur)
  from "1.prems" show ?case
    by (subst (asm) decodeDnsName_loop.simps)
       (auto simp: Let_def split: if_splits intro: "1.IH")
qed


subsection \<open>Label sequences on the wire\<close>

text \<open>
  A label \<open>l\<close> travels as its length byte followed by its bytes. A buffer that holds
  the labels \<open>ls\<close> from \<open>length pre\<close> on is decoded label by label, up to what follows
  them.
\<close>

lemma unat_length_byte:
  "length l < 256 \<Longrightarrow> unat (word_of_nat (length l) :: u8) = length l"
  by (simp add: unat_of_nat)

lemma slice_middle:
  "slice (pre @ x # l @ rest) (length pre + 1) (length pre + 1 + length l) = l"
  by (simp add: slice_def)

lemma decodeDnsName_wire_label:
  assumes "l \<noteq> []" "length l < 256"
  shows "decodeDnsName (pre @ (word_of_nat (length l) # l) @ rest) (length pre) =
     (case decodeDnsName (pre @ (word_of_nat (length l) # l) @ rest) (length pre + 1 + length l) of
        Inl e \<Rightarrow> Inl e
      | Inr (s, off) \<Rightarrow> Inr (toAscii l @ ''.'' @ s, off))"
proof -
  let ?bytes = "pre @ (word_of_nat (length l) # l) @ rest"
  have at: "?bytes ! length pre = word_of_nat (length l)" by simp
  have n: "unat (?bytes ! length pre) = length l"
    unfolding at using assms(2) by (rule unat_length_byte)
  have nz: "?bytes ! length pre \<noteq> 0"
    using n assms(1) by (metis length_0_conv unat_0) 
  have sl: "slice ?bytes (length pre + 1) (length pre + 1 + length l) = l"
    using slice_middle [of pre "word_of_nat (length l)" l rest] by simp
  show ?thesis
    using decodeDnsName_label [of "length pre" ?bytes, OF _ nz]
    unfolding n sl by simp
qed

lemma decodeDnsName_wire:
  assumes "\<forall>l\<in>set ls. l \<noteq> [] \<and> length l < 256"
  shows "decodeDnsName (pre @ concat (map (\<lambda>l. word_of_nat (length l) # l) ls) @ rest) (length pre) =
     (case decodeDnsName (pre @ concat (map (\<lambda>l. word_of_nat (length l) # l) ls) @ rest)
             (length pre + length (concat (map (\<lambda>l. word_of_nat (length l) # l) ls))) of
        Inl e \<Rightarrow> Inl e
      | Inr (s, off) \<Rightarrow> Inr (concat (map (\<lambda>l. toAscii l @ ''.'') ls) @ s, off))"
  using assms
proof (induction ls arbitrary: pre)
  case Nil
  show ?case by (simp split: sum.splits)
next
  case (Cons l ls)
  let ?enc = "concat (map (\<lambda>l. word_of_nat (length l) # l) ls)"
  let ?x = "word_of_nat (length l) :: u8"
  have l: "l \<noteq> []" "length l < 256" using Cons.prems by simp_all
  have ih: "decodeDnsName ((pre @ ?x # l) @ ?enc @ rest) (length (pre @ ?x # l)) =
     (case decodeDnsName ((pre @ ?x # l) @ ?enc @ rest) (length (pre @ ?x # l) + length ?enc) of
        Inl e \<Rightarrow> Inl e
      | Inr (s, off) \<Rightarrow> Inr (concat (map (\<lambda>l. toAscii l @ ''.'') ls) @ s, off))"
    using Cons.prems by (intro Cons.IH) simp
  have st: "decodeDnsName (pre @ (?x # l) @ (?enc @ rest)) (length pre) =
     (case decodeDnsName (pre @ (?x # l) @ (?enc @ rest)) (length pre + 1 + length l) of
        Inl e \<Rightarrow> Inl e
      | Inr (s, off) \<Rightarrow> Inr (toAscii l @ ''.'' @ s, off))"
    by (rule decodeDnsName_wire_label [OF l])
  have e1: "(pre @ ?x # l) @ ?enc @ rest = pre @ (?x # l) @ (?enc @ rest)" by simp
  have e2: "pre @ concat (map (\<lambda>l. word_of_nat (length l) # l) (l # ls)) @ rest
            = pre @ (?x # l) @ (?enc @ rest)" by simp
  have e3: "length (pre @ ?x # l) = length pre + 1 + length l" by simp
  have e4: "length pre + length (concat (map (\<lambda>l. word_of_nat (length l) # l) (l # ls)))
            = length pre + 1 + length l + length ?enc" by simp
  show ?case
    unfolding e2 e4 st using ih unfolding e1 e3
    by (simp split: sum.splits)
qed


text \<open>
  Conversely, a name that was decoded is made of labels that stand in the buffer, each
  with the length its length byte declares; the decoder stopped at a zero byte or at the
  end of the buffer.
\<close>

lemma slice_split:
  assumes "a \<le> b" "b \<le> c"
  shows "slice xs a c = slice xs a b @ slice xs b c"
proof -
  have e: "c - a = (b - a) + (c - b)" using assms by simp
  show ?thesis unfolding slice_def e take_add using assms by simp
qed

lemma slice_one:
  "a < length xs \<Longrightarrow> slice xs a (Suc a) = [xs ! a]"
  by (simp add: slice_def take_Suc_conv_app_nth [of 0] Cons_nth_drop_Suc [symmetric])

lemma length_slice:
  "b \<le> length xs \<Longrightarrow> length (slice xs a b) = b - a"
  by (simp add: slice_def)

lemma slice_to_end:
  "length xs \<le> b \<Longrightarrow> slice xs a b = drop a xs"
  by (simp add: slice_def)

lemma decodeDnsName_loop_labels:
  "decodeDnsName_loop bytes name cur = Inr (nm, off) \<Longrightarrow>
     \<exists>ls. (\<forall>l\<in>set ls. 0 < length l \<and> length l \<le> 255) \<and>
          nm = name @ concat (map (\<lambda>l. toAscii l @ ''.'') ls) \<and>
          (slice bytes cur off = concat (map (\<lambda>l. word_of_nat (length l) # l) ls) @ [0] \<or>
           off = max cur (length bytes) \<and>
           drop cur bytes = concat (map (\<lambda>l. word_of_nat (length l) # l) ls))"
proof (induction bytes name cur rule: decodeDnsName_loop.induct)
  case (1 bytes name cur)
  let ?n = "unat (bytes ! cur)"
  let ?l = "slice bytes (cur + 1) (cur + 1 + ?n)"
  let ?wire = "\<lambda>ls :: bytes list. concat (map (\<lambda>l. word_of_nat (length l) # l) ls)"
  let ?dots = "\<lambda>ls :: bytes list. concat (map (\<lambda>l. toAscii l @ ''.'') ls)"
  show ?case
  proof (cases "cur < length bytes")
    case False
    with "1.prems" have "nm = name" "off = cur"
      by (simp_all add: decodeDnsName_loop.simps)
    with False show ?thesis by (intro exI [of _ "[]"]) simp
  next
    case c: True
    show ?thesis
    proof (cases "?n = 0")
      case True
      with c "1.prems" have r: "nm = name" "off = cur + 1"
        by (simp_all add: decodeDnsName_loop.simps)
      have "bytes ! cur = 0" using True by (simp add: unat_eq_0)
      with c r slice_one [of cur bytes] have "slice bytes cur off = [0]" by simp
      with r show ?thesis by (intro exI [of _ "[]"]) simp
    next
      case nz: False
      show ?thesis
      proof (cases "cur + 1 + ?n > length bytes")
        case True
        with c nz "1.prems" show ?thesis by (simp add: decodeDnsName_loop.simps)
      next
        case fits: False
        from c nz fits "1.prems"
        have rec: "decodeDnsName_loop bytes (name @ toAscii ?l @ ''.'') (cur + 1 + ?n) = Inr (nm, off)"
          by (subst (asm) decodeDnsName_loop.simps) (simp add: Let_def)
        from "1.IH" [OF c refl refl nz fits rec] obtain ls where
          ls: "\<forall>l\<in>set ls. 0 < length l \<and> length l \<le> 255"
          and nm: "nm = (name @ toAscii ?l @ ''.'') @ ?dots ls"
          and w: "slice bytes (cur + 1 + ?n) off = ?wire ls @ [0] \<or>
                  off = max (cur + 1 + ?n) (length bytes) \<and> drop (cur + 1 + ?n) bytes = ?wire ls"
          by blast
        have len: "length ?l = ?n" using fits by (simp add: length_slice)
        have n255: "?n \<le> 255" using unsigned_less [of "bytes ! cur", where ?'a = nat] by simp
        have hd: "word_of_nat (length ?l) = bytes ! cur" unfolding len by simp
        have off: "cur + 1 + ?n \<le> off"
          using decodeDnsName_loop_offset [OF rec] by simp
        have pre: "slice bytes cur (cur + 1 + ?n) = bytes ! cur # ?l"
          using slice_split [of cur "cur + 1" "cur + 1 + ?n" bytes] c by (simp add: slice_one)
        have whole: "slice bytes cur off = bytes ! cur # ?l @ slice bytes (cur + 1 + ?n) off"
          using slice_split [of cur "cur + 1 + ?n" off bytes] off pre by simp
        have "(\<forall>l\<in>set (?l # ls). 0 < length l \<and> length l \<le> 255)"
          using ls len nz n255 by (simp del: length_greater_0_conv)
        moreover have "nm = name @ ?dots (?l # ls)" using nm by simp
        moreover have "slice bytes cur off = ?wire (?l # ls) @ [0] \<or>
              off = max cur (length bytes) \<and> drop cur bytes = ?wire (?l # ls)"
        proof (rule disjE [OF w])
          assume "slice bytes (cur + 1 + ?n) off = ?wire ls @ [0]"
          then show ?thesis using whole hd by simp
        next
          assume e: "off = max (cur + 1 + ?n) (length bytes) \<and> drop (cur + 1 + ?n) bytes = ?wire ls"
          then have o: "off = length bytes" using fits by simp
          have "drop cur bytes = slice bytes cur off" using o by (simp add: slice_to_end)
          also have "\<dots> = bytes ! cur # ?l @ drop (cur + 1 + ?n) bytes"
            using whole o by (simp add: slice_to_end)
          finally show ?thesis using e o c hd by simp
        qed
        ultimately show ?thesis by blast
      qed
    qed
  qed
qed

text \<open>
  A name whose decoding fails stops at a non-zero length byte with fewer bytes behind it
  than it declares.
\<close>

lemma decodeDnsName_loop_Inl_labels:
  "decodeDnsName_loop bytes name cur = Inl e \<Longrightarrow>
     \<exists>ls n body. (\<forall>l\<in>set ls. 0 < length l \<and> length l \<le> 255) \<and>
          drop cur bytes = concat (map (\<lambda>l. word_of_nat (length l) # l) ls) @ n # body \<and>
          n \<noteq> 0 \<and> length body < unat n"
proof (induction bytes name cur rule: decodeDnsName_loop.induct)
  case (1 bytes name cur)
  let ?n = "unat (bytes ! cur)"
  let ?l = "slice bytes (cur + 1) (cur + 1 + ?n)"
  let ?wire = "\<lambda>ls :: bytes list. concat (map (\<lambda>l. word_of_nat (length l) # l) ls)"
  have c: "cur < length bytes" and nz: "?n \<noteq> 0"
    using "1.prems" by (subst (asm) decodeDnsName_loop.simps, simp add: Let_def split: if_splits)+
  have dr: "drop cur bytes = bytes ! cur # drop (cur + 1) bytes"
    using c by (simp add: Cons_nth_drop_Suc)
  show ?case
  proof (cases "cur + 1 + ?n > length bytes")
    case True
    have "(\<forall>l\<in>set ([] :: bytes list). 0 < length l \<and> length l \<le> 255) \<and>
          drop cur bytes = ?wire [] @ bytes ! cur # drop (cur + 1) bytes \<and>
          bytes ! cur \<noteq> 0 \<and> length (drop (cur + 1) bytes) < ?n"
      using True c nz dr by (auto simp: unat_eq_0)
    then show ?thesis by blast
  next
    case fits: False
    from c nz fits "1.prems"
    have rec: "decodeDnsName_loop bytes (name @ toAscii ?l @ ''.'') (cur + 1 + ?n) = Inl e"
      by (subst (asm) decodeDnsName_loop.simps) (simp add: Let_def)
    from "1.IH" [OF c refl refl nz fits rec] obtain ls n body where
      ls: "\<forall>l\<in>set ls. 0 < length l \<and> length l \<le> 255"
      and w: "drop (cur + 1 + ?n) bytes = ?wire ls @ n # body"
      and n: "n \<noteq> 0" "length body < unat n"
      by blast
    have len: "length ?l = ?n" using fits by (simp add: length_slice)
    have n255: "?n \<le> 255" using unsigned_less [of "bytes ! cur", where ?'a = nat] by simp
    have hd: "word_of_nat (length ?l) = bytes ! cur" unfolding len by simp
    have "drop (cur + 1 + ?n) bytes = drop ?n (drop (cur + 1) bytes)"
      by (simp add: add.commute)
    moreover have "?l = take ?n (drop (cur + 1) bytes)"
      by (simp add: slice_def)
    ultimately have "drop (cur + 1) bytes = ?l @ drop (cur + 1 + ?n) bytes"
      by (simp only: append_take_drop_id)
    then have "drop cur bytes = ?wire (?l # ls) @ n # body"
      using dr w hd by simp
    moreover have "\<forall>l\<in>set (?l # ls). 0 < length l \<and> length l \<le> 255"
      using ls len nz n255 by (simp del: length_greater_0_conv)
    ultimately show ?thesis using n by blast
  qed
qed

text \<open>Labels of test buffers: a run of the letter a.\<close>

lemma toAscii_letter_a: "toAscii (replicate n 0x61) = replicate n CHR ''a''"
proof -
  have "char_of (unat ((0x61 :: u8) AND 0x7f)) = CHR ''a''" by code_simp
  then show ?thesis unfolding toAscii_def map_replicate by simp
qed

section \<open>Claims about the name decoder\<close>

text \<open>
  C1 (as amended). The name decoder has no check for compression pointers: wherever in
  a name it stands (behind any labels, themselves of any length a length byte can
  declare), a length byte with the top two bits set (192 or more) is handled as the
  literal label length it spells. If fewer bytes than that follow, decoding fails with
  the error \<^verbatim>\<open>Buffer too short for DnsName label\<close>; otherwise that many bytes are taken
  as a label and decoding goes on behind them.
\<close>

theorem decodeDnsName_compression_byte_literal:
  assumes "\<forall>l\<in>set ls. l \<noteq> [] \<and> length l < 256" "192 \<le> unat n"
  shows "decodeDnsName (pre @ concat (map (\<lambda>l. word_of_nat (length l) # l) ls) @ n # body)
           (length pre) =
     (if length body < unat n
      then Inl (Error ''Buffer too short for DnsName label'')
      else (case decodeDnsName
                   (pre @ concat (map (\<lambda>l. word_of_nat (length l) # l) ls) @ n # body)
                   (length pre + length (concat (map (\<lambda>l. word_of_nat (length l) # l) ls))
                      + 1 + unat n) of
              Inl e \<Rightarrow> Inl e
            | Inr (s, off) \<Rightarrow>
                Inr (concat (map (\<lambda>l. toAscii l @ ''.'') ls) @
                     toAscii (take (unat n) body) @ ''.'' @ s, off)))"
proof -
  let ?wire = "concat (map (\<lambda>l. word_of_nat (length l) # l) ls)"
  let ?bytes = "pre @ ?wire @ n # body"
  let ?p = "length pre + length ?wire"
  have at: "?bytes ! ?p = n" by (simp add: nth_append)
  have p: "?p < length ?bytes" by simp
  have nz: "?bytes ! ?p \<noteq> 0" unfolding at using assms(2) by auto
  have sl: "slice ?bytes (?p + 1) (?p + 1 + unat n) = take (unat n) body"
    by (simp add: slice_def)
  have here: "decodeDnsName ?bytes ?p =
     (if length body < unat n
      then Inl (Error ''Buffer too short for DnsName label'')
      else (case decodeDnsName ?bytes (?p + 1 + unat n) of
              Inl e \<Rightarrow> Inl e
            | Inr (s, off) \<Rightarrow> Inr (toAscii (take (unat n) body) @ ''.'' @ s, off)))"
  proof (cases "length body < unat n")
    case True
    then have "length ?bytes < ?p + 1 + unat (?bytes ! ?p)" unfolding at by simp
    from decodeDnsName_short [OF p nz this] True show ?thesis by simp
  next
    case False
    then have "?p + 1 + unat (?bytes ! ?p) \<le> length ?bytes" unfolding at by simp
    from decodeDnsName_label [OF p nz this] False show ?thesis
      unfolding at sl by simp
  qed
  show ?thesis
    unfolding decodeDnsName_wire [OF assms(1), of pre "n # body"] here
    by (simp split: sum.splits)
qed

text \<open>
  The pointer \<^verbatim>\<open>c0 0c\<close> behind the label \<^verbatim>\<open>www\<close>: 192 bytes are missing. The
  byte \<^verbatim>\<open>c0\<close> behind the label \<^verbatim>\<open>a\<close> and in front of 192 letters and a zero byte:
  a second label of 192 characters.
\<close>

theorem decodeDnsName_compression_byte_literal_witness:
  "decodeDnsName [0x03, 0x77, 0x77, 0x77, 0xC0, 0x0C] 0 =
     Inl (Error ''Buffer too short for DnsName label'') \<and>
   decodeDnsName (0x01 # 0x61 # 0xC0 # replicate 192 0x61 @ [0]) 0 =
     Inr (''a.'' @ replicate 192 CHR ''a'' @ ''.'', 196)"
proof -
  have w: "toAscii [0x77, 0x77, 0x77] = ''www''" by code_simp
  have a: "toAscii [0x61] = ''a''" using toAscii_letter_a [of 1] by simp
  have n: "192 \<le> unat (0xC0 :: u8)" by simp
  have h1: "\<forall>l\<in>set [[0x77, 0x77, 0x77 :: u8]]. l \<noteq> [] \<and> length l < 256" by simp
  have h2: "\<forall>l\<in>set [[0x61 :: u8]]. l \<noteq> [] \<and> length l < 256" by simp
  have 1: "decodeDnsName [0x03, 0x77, 0x77, 0x77, 0xC0, 0x0C] 0 =
     Inl (Error ''Buffer too short for DnsName label'')"
    using decodeDnsName_compression_byte_literal [OF h1 n, of "[]" "[0x0C]"] by simp
  have z: "decodeDnsName (0x01 # 0x61 # 0xC0 # replicate 192 0x61 @ [0]) 195 = Inr ([], 196)"
    using decodeDnsName_null [of 195 "0x01 # 0x61 # 0xC0 # replicate 192 0x61 @ [0]"]
    by (simp add: nth_append nth_Cons')
  have 2: "decodeDnsName (0x01 # 0x61 # 0xC0 # replicate 192 0x61 @ [0]) 0 =
     Inr (''a.'' @ replicate 192 CHR ''a'' @ ''.'', 196)"
    using decodeDnsName_compression_byte_literal [OF h2 n, of "[]" "replicate 192 0x61 @ [0]"] z
    by (simp add: a toAscii_letter_a)
  from 1 2 show ?thesis by blast
qed

text \<open>
  The claim as stated fails: the byte \<^verbatim>\<open>c0\<close> followed by 192 letters and a zero byte
  is decoded without any error, as one label of 192 characters.
\<close>

theorem decodeDnsName_compression_byte_counterexample:
  "decodeDnsName (0xC0 # replicate 192 0x61 @ [0]) 0 = Inr (replicate 192 CHR ''a'' @ ''.'', 194)"
proof -
  have l: "\<forall>l\<in>set [replicate 192 (0x61 :: u8)]. l \<noteq> [] \<and> length l < 256" by simp
  have z: "decodeDnsName (0xC0 # replicate 192 0x61 @ [0]) 193 = Inr ([], 194)"
    using decodeDnsName_null [of 193 "0xC0 # replicate 192 0x61 @ [0]"]
    by (simp add: nth_append)
  show ?thesis
    using decodeDnsName_wire [OF l, of "[]" "[0]"] z
    by (simp add: toAscii_letter_a)
qed

text \<open>
  C2 (as amended). The name decoder fails, with its only error
  \<^verbatim>\<open>Buffer too short for DnsName label\<close>, exactly when a non-zero length byte declares a
  label body that reaches past the end of the buffer. Where the buffer ends at the place
  of a length byte (a name whose terminating zero label is missing, or a start offset at or
  behind the end) the decoder does not fail: it returns the labels read so far, and the
  end of the buffer (or the start offset behind it) as the new offset.
\<close>

theorem decodeDnsName_truncation:
  assumes "\<forall>l\<in>set ls. l \<noteq> [] \<and> length l < 256"
  shows "decodeDnsName (pre @ concat (map (\<lambda>l. word_of_nat (length l) # l) ls)) (length pre) =
           Inr (concat (map (\<lambda>l. toAscii l @ ''.'') ls),
                length pre + length (concat (map (\<lambda>l. word_of_nat (length l) # l) ls))) \<and>
         (\<forall>n body. n \<noteq> 0 \<and> length body < unat n \<longrightarrow>
            decodeDnsName (pre @ concat (map (\<lambda>l. word_of_nat (length l) # l) ls) @ n # body)
              (length pre) = Inl (Error ''Buffer too short for DnsName label'')) \<and>
         (\<forall>bytes offset. length bytes \<le> offset \<longrightarrow> decodeDnsName bytes offset = Inr ([], offset)) \<and>
         (\<forall>bytes offset e. decodeDnsName bytes offset = Inl e \<longrightarrow>
            e = Error ''Buffer too short for DnsName label'' \<and>
            (\<exists>ls n body. (\<forall>l\<in>set ls. 0 < length l \<and> length l \<le> 255) \<and>
               drop offset bytes = concat (map (\<lambda>l. word_of_nat (length l) # l) ls) @ n # body \<and>
               n \<noteq> 0 \<and> length body < unat n))"
proof (intro conjI allI impI)
  let ?wire = "concat (map (\<lambda>l. word_of_nat (length l) # l) ls)"
  show "decodeDnsName (pre @ ?wire) (length pre) =
          Inr (concat (map (\<lambda>l. toAscii l @ ''.'') ls), length pre + length ?wire)"
    using decodeDnsName_wire [OF assms, of pre "[]"]
      decodeDnsName_end [of "pre @ ?wire" "length pre + length ?wire"]
    by simp
next
  fix n :: u8 and body :: bytes
  let ?wire = "concat (map (\<lambda>l. word_of_nat (length l) # l) ls)"
  let ?bytes = "pre @ ?wire @ n # body"
  assume n: "n \<noteq> 0 \<and> length body < unat n"
  have at: "?bytes ! (length pre + length ?wire) = n"
    by (simp add: nth_append)
  have "decodeDnsName ?bytes (length pre + length ?wire) =
          Inl (Error ''Buffer too short for DnsName label'')"
    using n by (intro decodeDnsName_short) (simp_all add: at)
  then show "decodeDnsName ?bytes (length pre) = Inl (Error ''Buffer too short for DnsName label'')"
    using decodeDnsName_wire [OF assms, of pre "n # body"] by simp
next
  fix bytes :: bytes and offset
  assume "length bytes \<le> offset"
  then show "decodeDnsName bytes offset = Inr ([], offset)" by (rule decodeDnsName_end)
next
  fix bytes offset e
  assume "decodeDnsName bytes offset = Inl e"
  then show "e = Error ''Buffer too short for DnsName label''"
    unfolding decodeDnsName_def by (rule decodeDnsName_loop_error)
next
  fix bytes offset e
  assume "decodeDnsName bytes offset = Inl e"
  then show "\<exists>ls n body. (\<forall>l\<in>set ls. 0 < length l \<and> length l \<le> 255) \<and>
               drop offset bytes = concat (map (\<lambda>l. word_of_nat (length l) # l) ls) @ n # body \<and>
               n \<noteq> 0 \<and> length body < unat n"
    unfolding decodeDnsName_def by (rule decodeDnsName_loop_Inl_labels)
qed

theorem decodeDnsName_truncation_witness:
  "decodeDnsName [0x01, 0x61] 0 = Inr (''a.'', 2) \<and>
   decodeDnsName [0x01, 0x61, 0x05, 0x62] 0 = Inl (Error ''Buffer too short for DnsName label'') \<and>
   decodeDnsName [0x01, 0x61] 3 = Inr ([], 3) \<and>
   (\<exists>ls n body. (\<forall>l\<in>set ls. 0 < length l \<and> length l \<le> 255) \<and>
      drop 0 [0x01, 0x61, 0x05, 0x62 :: u8] =
        concat (map (\<lambda>l. word_of_nat (length l) # l) ls) @ n # body \<and>
      n \<noteq> 0 \<and> length body < unat n)"
proof -
  have h: "\<forall>l\<in>set [[0x61 :: u8]]. l \<noteq> [] \<and> length l < 256" by simp
  have a: "toAscii [0x61] = ''a''" using toAscii_letter_a [of 1] by simp
  have n: "(0x05 :: u8) \<noteq> 0 \<and> length [0x62 :: u8] < unat (0x05 :: u8)" by simp
  note t = decodeDnsName_truncation [OF h, of "[]"]
  have 1: "decodeDnsName [0x01, 0x61] 0 = Inr (''a.'', 2)"
    using t by (simp add: a)
  have 2: "decodeDnsName [0x01, 0x61, 0x05, 0x62] 0 =
             Inl (Error ''Buffer too short for DnsName label'')"
    using t n by simp
  have 3: "decodeDnsName [0x01, 0x61] 3 = Inr ([], 3)"
    using t by simp
  have 4: "\<exists>ls n body. (\<forall>l\<in>set ls. 0 < length l \<and> length l \<le> 255) \<and>
      drop 0 [0x01, 0x61, 0x05, 0x62 :: u8] =
        concat (map (\<lambda>l. word_of_nat (length l) # l) ls) @ n # body \<and>
      n \<noteq> 0 \<and> length body < unat n"
    using t 2 by blast
  from 1 2 3 4 show ?thesis by blast
qed

text \<open>
  The claim as stated fails: the name \<^verbatim>\<open>01 61\<close> has no terminating zero label and is
  returned successfully.
\<close>

theorem decodeDnsName_missing_terminator_counterexample:
  "decodeDnsName [0x01, 0x61] 0 = Inr (''a.'', 2)"
  by code_simp

text \<open>
  C8 (as amended). Every label of a name produced by the name decoder has between 1 and
  255 bytes, which is what one non-zero length byte can declare, and stands in the buffer
  behind its length byte. The decoder has no check against 63: any sequence of labels of
  1 to 255 bytes followed by a zero byte is returned successfully.
\<close>

theorem decodeDnsName_label_lengths:
  "(decodeDnsName bytes offset = Inr (nm, off) \<longrightarrow>
      (\<exists>ls. (\<forall>l\<in>set ls. 0 < length l \<and> length l \<le> 255) \<and>
            nm = concat (map (\<lambda>l. toAscii l @ ''.'') ls) \<and>
            (slice bytes offset off = concat (map (\<lambda>l. word_of_nat (length l) # l) ls) @ [0] \<or>
             off = max offset (length bytes) \<and>
             drop offset bytes = concat (map (\<lambda>l. word_of_nat (length l) # l) ls)))) \<and>
   ((\<forall>l\<in>set ls'. 0 < length l \<and> length l \<le> 255) \<longrightarrow>
      decodeDnsName (pre @ concat (map (\<lambda>l. word_of_nat (length l) # l) ls') @ 0 # rest)
        (length pre) =
      Inr (concat (map (\<lambda>l. toAscii l @ ''.'') ls'),
           length pre + length (concat (map (\<lambda>l. word_of_nat (length l) # l) ls')) + 1))"
proof (intro conjI impI)
  assume "decodeDnsName bytes offset = Inr (nm, off)"
  then show "\<exists>ls. (\<forall>l\<in>set ls. 0 < length l \<and> length l \<le> 255) \<and>
            nm = concat (map (\<lambda>l. toAscii l @ ''.'') ls) \<and>
            (slice bytes offset off = concat (map (\<lambda>l. word_of_nat (length l) # l) ls) @ [0] \<or>
             off = max offset (length bytes) \<and>
             drop offset bytes = concat (map (\<lambda>l. word_of_nat (length l) # l) ls))"
    unfolding decodeDnsName_def using decodeDnsName_loop_labels [of bytes "[]" offset nm off]
    by simp
next
  let ?wire = "concat (map (\<lambda>l. word_of_nat (length l) # l) ls')"
  let ?bytes = "pre @ ?wire @ 0 # rest"
  assume "\<forall>l\<in>set ls'. 0 < length l \<and> length l \<le> 255"
  then have ls: "\<forall>l\<in>set ls'. l \<noteq> [] \<and> length l < 256" by auto
  have at: "?bytes ! (length pre + length ?wire) = 0"
    by (simp add: nth_append)
  have "decodeDnsName ?bytes (length pre + length ?wire) = Inr ([], length pre + length ?wire + 1)"
    by (intro decodeDnsName_null) (simp_all add: at)
  then show "decodeDnsName ?bytes (length pre) =
      Inr (concat (map (\<lambda>l. toAscii l @ ''.'') ls'), length pre + length ?wire + 1)"
    using decodeDnsName_wire [OF ls, of pre "0 # rest"] by simp
qed

theorem decodeDnsName_label_lengths_witness:
  "decodeDnsName (0x40 # replicate 64 0x61 @ [0]) 0 = Inr (replicate 64 CHR ''a'' @ ''.'', 66) \<and>
   (\<exists>ls. (\<forall>l\<in>set ls. 0 < length l \<and> length l \<le> 255) \<and>
         replicate 64 CHR ''a'' @ ''.'' = concat (map (\<lambda>l. toAscii l @ ''.'') ls) \<and>
         (slice (0x40 # replicate 64 0x61 @ [0]) 0 66 =
            concat (map (\<lambda>l. word_of_nat (length l) # l) ls) @ [0] \<or>
          66 = max 0 (length (0x40 # replicate 64 (0x61 :: u8) @ [0])) \<and>
          drop 0 (0x40 # replicate 64 0x61 @ [0]) =
            concat (map (\<lambda>l. word_of_nat (length l) # l) ls)))"
proof -
  have h: "\<forall>l\<in>set [replicate 64 (0x61 :: u8)]. 0 < length l \<and> length l \<le> 255" by simp
  have d: "decodeDnsName (0x40 # replicate 64 0x61 @ [0]) 0 =
             Inr (replicate 64 CHR ''a'' @ ''.'', 66)"
    using decodeDnsName_label_lengths [of "[]" 0 "[]" 0 "[replicate 64 0x61]" "[]" "[]"] h
    by (simp add: toAscii_letter_a)
  from d decodeDnsName_label_lengths
         [of "0x40 # replicate 64 0x61 @ [0]" 0 "replicate 64 CHR ''a'' @ ''.''" 66 "[]" "[]" "[]"]
  show ?thesis by blast
qed

text \<open>
  The claim as stated fails: a label with the declared length 64 is accepted.
\<close>

theorem decodeDnsName_label_64_counterexample:
  "decodeDnsName (0x40 # replicate 64 0x61 @ [0]) 0 = Inr (replicate 64 CHR ''a'' @ ''.'', 66)"
proof -
  have l: "\<forall>l\<in>set [replicate 64 (0x61 :: u8)]. l \<noteq> [] \<and> length l < 256" by simp
  have z: "decodeDnsName (0x40 # replicate 64 0x61 @ [0]) 65 = Inr ([], 66)"
    using decodeDnsName_null [of 65 "0x40 # replicate 64 0x61 @ [0]"]
    by (simp add: nth_append)
  show ?thesis
    using decodeDnsName_wire [OF l, of "[]" "[0]"] z
    by (simp add: toAscii_letter_a)
qed

section \<open>Properties of the resource-record set decoder\<close>

subsection \<open>One pass of the loop\<close>

lemma parseDnsRrSet_body_offset:
  assumes "offset < length rawBytes"
  shows "case parseDnsRrSet_body rawBytes owner offset of
           Truncated off l \<Rightarrow> offset < off \<and> off \<le> length rawBytes
         | Threw e off l \<Rightarrow> offset \<le> off \<and> off \<le> length rawBytes
         | Pushed r off l \<Rightarrow> offset + 11 \<le> off \<and> off \<le> length rawBytes"
proof (cases "decodeDnsName rawBytes offset")
  case (Inl e)
  then show ?thesis using assms by (simp add: parseDnsRrSet_body_Inl)
next
  case (Inr p)
  obtain nm o1 where p: "p = (nm, o1)" by (cases p)
  have d: "decodeDnsName rawBytes offset = Inr (nm, o1)" using Inr p by simp
  have o1: "offset < o1" "o1 \<le> length rawBytes"
    by (rule decodeDnsName_offset [OF d assms])+
  have len: "0 \<le> shiftOr16 rawBytes (o1 + 8)" by (rule shiftOr16_range)
  show ?thesis
    unfolding parseDnsRrSet_body_Inr [OF d] Let_def
    using o1 len by (auto split: sum.splits)
qed

lemma parseDnsRrSet_body_fields:
  assumes "parseDnsRrSet_body rawBytes owner offset = Pushed r off l"
  shows "\<exists>nm o1. decodeDnsName rawBytes offset = Inr (nm, o1) \<and>
           off = o1 + 10 + nat (shiftOr16 rawBytes (o1 + 8)) \<and> off \<le> length rawBytes \<and>
           rr_name r = Some nm \<and>
           rr_type r = Some (shiftOr16 rawBytes o1) \<and>
           rr_class r = Some (shiftOr16 rawBytes (o1 + 2)) \<and>
           rr_ttl r = Some (shiftOr32 rawBytes (o1 + 4)) \<and>
           (if shiftOr16 rawBytes o1 = 2 \<and> shiftOr16 rawBytes (o1 + 2) = 1
            then \<exists>nm2 n. decodeDnsName (slice rawBytes (o1 + 10) off) 0 = Inr (nm2, n) \<and>
                   rr_rdata r = Some nm2
            else rr_rdata r = Some (hexlify (slice rawBytes (o1 + 10) off)))"
proof -
  obtain nm o1 where d: "decodeDnsName rawBytes offset = Inr (nm, o1)"
    using assms by (cases "decodeDnsName rawBytes offset") (auto simp: parseDnsRrSet_body_Inl)
  have len: "0 \<le> shiftOr16 rawBytes (o1 + 8)" by (rule shiftOr16_range)
  then have e: "nat (int (o1 + 10) + shiftOr16 rawBytes (o1 + 8))
               = o1 + 10 + nat (shiftOr16 rawBytes (o1 + 8))"
    by (simp add: nat_add_distrib)
  have "off = o1 + 10 + nat (shiftOr16 rawBytes (o1 + 8)) \<and> off \<le> length rawBytes \<and>
           rr_name r = Some nm \<and>
           rr_type r = Some (shiftOr16 rawBytes o1) \<and>
           rr_class r = Some (shiftOr16 rawBytes (o1 + 2)) \<and>
           rr_ttl r = Some (shiftOr32 rawBytes (o1 + 4)) \<and>
           (if shiftOr16 rawBytes o1 = 2 \<and> shiftOr16 rawBytes (o1 + 2) = 1
            then \<exists>nm2 n. decodeDnsName (slice rawBytes (o1 + 10) off) 0 = Inr (nm2, n) \<and>
                   rr_rdata r = Some nm2
            else rr_rdata r = Some (hexlify (slice rawBytes (o1 + 10) off)))"
    using assms len unfolding parseDnsRrSet_body_Inr [OF d] Let_def e
    by (auto split: if_splits sum.splits)
  with d show ?thesis by blast
qed

subsection \<open>The whole loop\<close>

lemma parseDnsRrSet_while_returns:
  "parseDnsRrSet_while rawBytes owner offset records out =
     Some (parseDnsRrSet_loop rawBytes owner offset records out)"
proof (induction rawBytes owner offset records out rule: parseDnsRrSet_loop.induct)
  case (1 rawBytes owner offset records out)
  show ?case
    by (subst parseDnsRrSet_while.simps, subst parseDnsRrSet_loop.simps)
       (auto split: iteration.splits simp: "1.IH")
qed

lemma parseDnsRrSet_loop_result:
  "parseDnsRrSet_loop rawBytes owner offset records out = (records', off, out') \<Longrightarrow>
     offset \<le> off \<and> off \<le> max offset (length rawBytes) \<and>
     (\<exists>new. records' = records @ new \<and> offset + 11 * length new \<le> off \<and>
        (\<forall>r\<in>set new. \<exists>p q' l. offset \<le> p \<and> p < length rawBytes \<and>
            parseDnsRrSet_body rawBytes owner p = Pushed r q' l)) \<and>
     (\<exists>lines. out' = out @ lines)"
proof (induction rawBytes owner offset records out rule: parseDnsRrSet_loop.induct)
  case (1 rawBytes owner offset records out)
  show ?case
  proof (cases "offset < length rawBytes")
    case False
    with "1.prems" have "records' = records" "off = offset" "out' = out"
      by (simp_all add: parseDnsRrSet_loop.simps)
    then show ?thesis by simp
  next
    case c: True
    note b = parseDnsRrSet_body_offset [OF c, of owner]
    show ?thesis
    proof (cases "parseDnsRrSet_body rawBytes owner offset")
      case (Truncated p l)
      with c "1.prems" b show ?thesis
        by (subst (asm) parseDnsRrSet_loop.simps) auto
    next
      case (Threw e p l)
      with c "1.prems" b show ?thesis
        by (subst (asm) parseDnsRrSet_loop.simps) auto
    next
      case (Pushed r p l)
      with c "1.prems"
      have rec: "parseDnsRrSet_loop rawBytes owner p (records @ [r]) (out @ l) = (records', off, out')"
        by (subst (asm) parseDnsRrSet_loop.simps) simp
      from b Pushed have p: "offset + 11 \<le> p" "p \<le> length rawBytes" by simp_all
      from "1.IH" [OF c Pushed rec] obtain new lines where
        ih: "p \<le> off" "off \<le> max p (length rawBytes)" "records' = (records @ [r]) @ new"
          "p + 11 * length new \<le> off"
          "\<forall>r\<in>set new. \<exists>q q' l. p \<le> q \<and> q < length rawBytes \<and>
              parseDnsRrSet_body rawBytes owner q = Pushed r q' l"
          "out' = (out @ l) @ lines"
        by blast
      have "records' = records @ (r # new)" using ih(3) by simp
      moreover have "offset + 11 * length (r # new) \<le> off" using ih(4) p by simp
      moreover have "\<forall>x\<in>set (r # new). \<exists>q q' l. offset \<le> q \<and> q < length rawBytes \<and>
              parseDnsRrSet_body rawBytes owner q = Pushed x q' l"
      proof
        fix x assume "x \<in> set (r # new)"
        then consider "x = r" | "x \<in> set new" by auto
        then show "\<exists>q q' l. offset \<le> q \<and> q < length rawBytes \<and>
              parseDnsRrSet_body rawBytes owner q = Pushed x q' l"
        proof cases
          case 1
          then show ?thesis using Pushed c by blast
        next
          case 2
          with ih(5) obtain q q' l' where q: "p \<le> q" "q < length rawBytes"
            "parseDnsRrSet_body rawBytes owner q = Pushed x q' l'" by blast
          from q(1) p(1) have "offset \<le> q" by simp
          with q(2,3) show ?thesis by blast
        qed
      qed
      moreover have "out' = out @ (l @ lines)" using ih(6) by simp
      moreover have "offset \<le> off" "off \<le> max offset (length rawBytes)"
        using ih(1,2) p by simp_all
      ultimately show ?thesis by blast
    qed
  qed
qed

lemma parseDnsRrSet_loop_Threw:
  assumes "offset < length rawBytes"
    "parseDnsRrSet_body rawBytes owner offset = Threw e off lines"
  shows "parseDnsRrSet_loop rawBytes owner offset records out =
           (records, off, out @ lines @ [ConsoleError (message e) off])"
  using assms by (subst parseDnsRrSet_loop.simps) simp

lemma parseDnsRrSet_loop_Truncated:
  assumes "offset < length rawBytes"
    "parseDnsRrSet_body rawBytes owner offset = Truncated off lines"
  shows "parseDnsRrSet_loop rawBytes owner offset records out = (records, off, out @ lines)"
  using assms by (subst parseDnsRrSet_loop.simps) simp

lemma parseDnsRrSet_loop_Pushed:
  assumes "offset < length rawBytes"
    "parseDnsRrSet_body rawBytes owner offset = Pushed r off lines"
  shows "parseDnsRrSet_loop rawBytes owner offset records out =
           parseDnsRrSet_loop rawBytes owner off (records @ [r]) (out @ lines)"
  using assms by (subst parseDnsRrSet_loop.simps) simp

lemma parseDnsRrSet_loop_pushes:
  "parseDnsRrSet_pushes rawBytes owner offset rrs lines offset' \<Longrightarrow>
     parseDnsRrSet_loop rawBytes owner offset records out =
       parseDnsRrSet_loop rawBytes owner offset' (records @ rrs) (out @ lines)"
proof (induction arbitrary: records out rule: parseDnsRrSet_pushes.induct)
  case (none rawBytes owner offset)
  show ?case by simp
next
  case (push offset rawBytes owner rr offset' lines rrs rest offset'')
  have "parseDnsRrSet_loop rawBytes owner offset records out =
          parseDnsRrSet_loop rawBytes owner offset' (records @ [rr]) (out @ lines)"
    by (rule parseDnsRrSet_loop_Pushed [OF push.hyps(1,2)])
  also have "\<dots> = parseDnsRrSet_loop rawBytes owner offset'' ((records @ [rr]) @ rrs)
                      ((out @ lines) @ rest)"
    by (rule push.IH)
  finally show ?case by simp
qed

lemma parseDnsRrSet_pushes_two:
  assumes "parseDnsRrSet_body rawBytes owner 0 = Pushed r1 p1 l1" "0 < length rawBytes"
    "parseDnsRrSet_body rawBytes owner p1 = Pushed r2 p2 l2" "p1 < length rawBytes"
  shows "parseDnsRrSet_pushes rawBytes owner 0 [r1, r2] (l1 @ l2) p2"
  using parseDnsRrSet_pushes.push [OF assms(2,1)
          parseDnsRrSet_pushes.push [OF assms(4,3) parseDnsRrSet_pushes.none]]
  by simp

text \<open>
  One pass that ends in an exception or at a bounds check, from any state of the loop.
\<close>

lemma parseDnsRrSet_loop_pass_throws:
  assumes "offset < length rawBytes"
  shows "(decodeDnsName rawBytes offset = Inl e \<longrightarrow>
            parseDnsRrSet_loop rawBytes owner offset records out =
              (records, offset, out @ [ConsoleError (message e) offset])) \<and>
         (decodeDnsName rawBytes offset = Inr (nm, o1) \<and>
          o1 + 10 \<le> length rawBytes \<and>
          o1 + 10 + nat (shiftOr16 rawBytes (o1 + 8)) \<le> length rawBytes \<and>
          shiftOr16 rawBytes o1 = 2 \<and> shiftOr16 rawBytes (o1 + 2) = 1 \<and>
          decodeDnsName
            (slice rawBytes (o1 + 10) (o1 + 10 + nat (shiftOr16 rawBytes (o1 + 8)))) 0 = Inl e \<longrightarrow>
            parseDnsRrSet_loop rawBytes owner offset records out =
              (records, o1 + 10 + nat (shiftOr16 rawBytes (o1 + 8)),
               out @ (if nm \<noteq> owner then [warnLine nm owner] else []) @
                 [ConsoleError (message e) (o1 + 10 + nat (shiftOr16 rawBytes (o1 + 8)))]))"
proof (intro conjI impI)
  assume "decodeDnsName rawBytes offset = Inl e"
  then have "parseDnsRrSet_body rawBytes owner offset = Threw e offset []"
    by (rule parseDnsRrSet_body_Inl)
  from parseDnsRrSet_loop_Threw [OF assms this]
  show "parseDnsRrSet_loop rawBytes owner offset records out =
          (records, offset, out @ [ConsoleError (message e) offset])"
    by simp
next
  let ?end = "o1 + 10 + nat (shiftOr16 rawBytes (o1 + 8))"
  assume a: "decodeDnsName rawBytes offset = Inr (nm, o1) \<and>
          o1 + 10 \<le> length rawBytes \<and> ?end \<le> length rawBytes \<and>
          shiftOr16 rawBytes o1 = 2 \<and> shiftOr16 rawBytes (o1 + 2) = 1 \<and>
          decodeDnsName (slice rawBytes (o1 + 10) ?end) 0 = Inl e"
  then have d: "decodeDnsName rawBytes offset = Inr (nm, o1)" by simp
  have len: "0 \<le> shiftOr16 rawBytes (o1 + 8)" by (rule shiftOr16_range)
  then have e: "nat (int (o1 + 10) + shiftOr16 rawBytes (o1 + 8)) = ?end"
    by (simp add: nat_add_distrib)
  have "parseDnsRrSet_body rawBytes owner offset =
          Threw e ?end (if nm \<noteq> owner then [warnLine nm owner] else [])"
    unfolding parseDnsRrSet_body_Inr [OF d] Let_def e using a len by auto
  from parseDnsRrSet_loop_Threw [OF assms this]
  show "parseDnsRrSet_loop rawBytes owner offset records out =
          (records, ?end, out @ (if nm \<noteq> owner then [warnLine nm owner] else []) @
                 [ConsoleError (message e) ?end])" .
qed

lemma parseDnsRrSet_loop_pass_truncated:
  "(offset < length rawBytes \<and> decodeDnsName rawBytes offset = Inr (nm, o1) \<and>
    (length rawBytes < o1 + 2 \<or> length rawBytes < o1 + 4 \<or> length rawBytes < o1 + 8 \<or>
     length rawBytes < o1 + 10 \<or>
     int (length rawBytes) < int (o1 + 10) + shiftOr16 rawBytes (o1 + 8)) \<longrightarrow>
      parseDnsRrSet_loop rawBytes owner offset records out =
        (records,
         if length rawBytes < o1 + 2 then o1
         else if length rawBytes < o1 + 4 then o1 + 2
         else if length rawBytes < o1 + 8 then o1 + 4
         else if length rawBytes < o1 + 10 then o1 + 8
         else o1 + 10,
         out @ (if nm \<noteq> owner then [warnLine nm owner] else []))) \<and>
   parseDnsRrSet_loop [] owner 0 [] [] = ([], 0, []) \<and>
   (decodeDnsName eventOwnerName 0 = Inr (owner, n) \<longrightarrow>
      parseDnsRrSet [] eventOwnerName = Inr ([], []))"
proof (intro conjI impI)
  let ?off = "if length rawBytes < o1 + 2 then o1
         else if length rawBytes < o1 + 4 then o1 + 2
         else if length rawBytes < o1 + 8 then o1 + 4
         else if length rawBytes < o1 + 10 then o1 + 8
         else o1 + 10"
  assume a: "offset < length rawBytes \<and> decodeDnsName rawBytes offset = Inr (nm, o1) \<and>
    (length rawBytes < o1 + 2 \<or> length rawBytes < o1 + 4 \<or> length rawBytes < o1 + 8 \<or>
     length rawBytes < o1 + 10 \<or>
     int (length rawBytes) < int (o1 + 10) + shiftOr16 rawBytes (o1 + 8))"
  then have d: "decodeDnsName rawBytes offset = Inr (nm, o1)" and c: "offset < length rawBytes"
    by simp_all
  have "parseDnsRrSet_body rawBytes owner offset =
          Truncated ?off (if nm \<noteq> owner then [warnLine nm owner] else [])"
    unfolding parseDnsRrSet_body_Inr [OF d] Let_def using a by auto
  from parseDnsRrSet_loop_Truncated [OF c this]
  show "parseDnsRrSet_loop rawBytes owner offset records out =
         (records, ?off, out @ (if nm \<noteq> owner then [warnLine nm owner] else []))" .
next
  show e: "parseDnsRrSet_loop [] owner 0 [] [] = ([], 0, [])"
    by (simp add: parseDnsRrSet_loop.simps)
  assume "decodeDnsName eventOwnerName 0 = Inr (owner, n)"
  then show "parseDnsRrSet [] eventOwnerName = Inr ([], [])"
    by (simp add: parseDnsRrSet_def e)
qed

lemma parseDnsRrSet_from_loop:
  assumes "decodeDnsName eventOwnerName 0 = Inr (owner, n)"
    "parseDnsRrSet_loop rawBytes owner 0 [] [] = (records, offset, out)"
  shows "parseDnsRrSet rawBytes eventOwnerName = Inr (records, out)"
  using assms by (simp add: parseDnsRrSet_def)

lemma parseDnsRrSet_records:
  assumes "parseDnsRrSet rawBytes eventOwnerName = Inr (records, out)" "r \<in> set records"
  shows "\<exists>owner offset off lines. offset < length rawBytes \<and>
           parseDnsRrSet_body rawBytes owner offset = Pushed r off lines"
proof -
  obtain owner n where h: "decodeDnsName eventOwnerName 0 = Inr (owner, n)"
    using assms(1) by (auto simp: parseDnsRrSet_def split: sum.splits)
  obtain off where l: "parseDnsRrSet_loop rawBytes owner 0 [] [] = (records, off, out)"
    using assms(1) h by (auto simp: parseDnsRrSet_def split: prod.splits)
  from parseDnsRrSet_loop_result [OF l] assms(2) show ?thesis by fastforce
qed

subsection \<open>The loop of the test script returns\<close>

lemma testDnsPacketLib_while_returns:
  "\<exists>result. testDnsPacketLib_while decode encodingLength recordsBuffer offset decodedRecords
      = Some result"
proof (induction "length recordsBuffer - offset" arbitrary: offset decodedRecords
       rule: less_induct)
  case less
  show ?case
  proof (cases "offset < length recordsBuffer")
    case False
    then show ?thesis by (subst testDnsPacketLib_while.simps) simp
  next
    case True
    show ?thesis
    proof (cases "decode recordsBuffer offset")
      case (Inl e)
      with True show ?thesis by (subst testDnsPacketLib_while.simps) simp
    next
      case (Inr x)
      show ?thesis
      proof (cases x)
        case None
        with True Inr show ?thesis by (subst testDnsPacketLib_while.simps) simp
      next
        case (Some rr)
        show ?thesis
        proof (cases "encodingLength rr = 0")
          case z: True
          with True Inr Some show ?thesis
            by (subst testDnsPacketLib_while.simps) simp
        next
          case nz: False
          have "length recordsBuffer - (offset + encodingLength rr) < length recordsBuffer - offset"
            using True nz by simp
          from less [OF this, of "decodedRecords @ [rr]"] True Inr Some nz show ?thesis
            by (subst testDnsPacketLib_while.simps) (simp add: Let_def)
        qed
      qed
    qed
  qed
qed

subsection \<open>The test buffers decoded\<close>

lemma scenarioA_run:
  "parseDnsRrSet scenarioA [0x03, 0x6d, 0x6f, 0x65, 0x03, 0x62, 0x6f, 0x78, 0x00] =
     Inr ([scenarioA_rr], [])"
  by code_simp


lemma scenarioA_loop:
  "parseDnsRrSet_loop scenarioA ''moe.box.'' 0 [] [] = ([scenarioA_rr], 44, [])"
  by code_simp

lemma scenarioA_body:
  "parseDnsRrSet_body scenarioA ''moe.box.'' 0 = Pushed scenarioA_rr 44 []"
  by code_simp

section \<open>Claims about the resource-record set decoder\<close>

text \<open>
  C3. The buffer of scenario A,
  \<^verbatim>\<open>036d6f6503626f78000002000100003840001905646572656b026e730a636c6f7564666c61726503636f6d00\<close>,
  decodes to exactly one record: owner \<^verbatim>\<open>moe.box.\<close>, type 2, class 1, ttl 14400, and as
  RDATA the decoded name \<^verbatim>\<open>derek.ns.cloudflare.com.\<close>. This holds for every event owner
  name that can be decoded (one that cannot makes \<^verbatim>\<open>parseDnsRrSet\<close> throw before it
  looks at the buffer); the event owner name only decides whether a warning is written.
\<close>

theorem parseDnsRrSet_scenario_A:
  "parseDnsRrSet scenarioA eventOwnerName =
   (case decodeDnsName eventOwnerName 0 of
      Inl e \<Rightarrow> Inl e
    | Inr (ownerNameFromEvent, newOffset) \<Rightarrow>
        Inr ([\<lparr>rr_name = Some ''moe.box.'', rr_type = Some 2, rr_class = Some 1,
                rr_ttl = Some 14400, rr_rdata = Some ''derek.ns.cloudflare.com.''\<rparr>],
             if ''moe.box.'' \<noteq> ownerNameFromEvent
             then [warnLine ''moe.box.'' ownerNameFromEvent] else []))"
proof -
  have d: "decodeDnsName scenarioA 0 = Inr (''moe.box.'', 9)" by code_simp
  have f: "shiftOr16 scenarioA 9 = 2" "shiftOr16 scenarioA (9 + 2) = 1"
    "shiftOr32 scenarioA (9 + 4) = 14400" "shiftOr16 scenarioA (9 + 8) = 25"
    by code_simp+
  have rd: "decodeDnsName (slice scenarioA (9 + 10) 44) 0 =
              Inr (''derek.ns.cloudflare.com.'', 25)"
    by code_simp
  have len: "length scenarioA = 44" by simp
  have body: "parseDnsRrSet_body scenarioA owner 0 =
      Pushed scenarioA_rr 44 (if ''moe.box.'' \<noteq> owner then [warnLine ''moe.box.'' owner] else [])"
    for owner
    unfolding parseDnsRrSet_body_Inr [OF d] Let_def f len using rd by simp
  have loop: "parseDnsRrSet_loop scenarioA owner 0 [] [] =
      ([scenarioA_rr], 44, if ''moe.box.'' \<noteq> owner then [warnLine ''moe.box.'' owner] else [])"
    for owner
    by (subst parseDnsRrSet_loop.simps, subst parseDnsRrSet_loop.simps) (simp add: body)
  show ?thesis
    unfolding parseDnsRrSet_def loop by (simp split: sum.splits prod.splits)
qed

text \<open>With the event owner name \<^verbatim>\<open>moe.box.\<close> nothing is written to the console.\<close>

theorem parseDnsRrSet_scenario_A_witness:
  "parseDnsRrSet scenarioA [0x03, 0x6d, 0x6f, 0x65, 0x03, 0x62, 0x6f, 0x78, 0x00] =
   Inr ([\<lparr>rr_name = Some ''moe.box.'', rr_type = Some 2, rr_class = Some 1,
            rr_ttl = Some 14400, rr_rdata = Some ''derek.ns.cloudflare.com.''\<rparr>], [])"
proof -
  have "decodeDnsName [0x03, 0x6d, 0x6f, 0x65, 0x03, 0x62, 0x6f, 0x78, 0x00] 0 =
          Inr (''moe.box.'', 9)"
    by code_simp
  then show ?thesis
    unfolding parseDnsRrSet_scenario_A by simp
qed

text \<open>
  C4 (as amended). When decoding a record throws (the name decoder fails on the owner
  name or on the RDATA of an NS record), the loop catches the error, writes its message
  and the current offset to the console, stops, and returns exactly the records pushed
  by the passes before the failure, in their order. The error and the offset are on the
  console only: the value \<^verbatim>\<open>parseDnsRrSet\<close> returns is the array of those records and
  nothing else.
\<close>

theorem parseDnsRrSet_error_logged:
  assumes "parseDnsRrSet_pushes rawBytes owner start rrs lines offset"
    and "offset < length rawBytes"
  shows "(decodeDnsName rawBytes offset = Inl e \<longrightarrow>
            parseDnsRrSet_loop rawBytes owner start records out =
              (records @ rrs, offset, out @ lines @ [ConsoleError (message e) offset]) \<and>
            (start = 0 \<and> decodeDnsName eventOwnerName 0 = Inr (owner, n) \<longrightarrow>
               parseDnsRrSet rawBytes eventOwnerName =
                 Inr (rrs, lines @ [ConsoleError (message e) offset]))) \<and>
         (decodeDnsName rawBytes offset = Inr (nm, o1) \<and>
          o1 + 10 \<le> length rawBytes \<and>
          o1 + 10 + nat (shiftOr16 rawBytes (o1 + 8)) \<le> length rawBytes \<and>
          shiftOr16 rawBytes o1 = 2 \<and> shiftOr16 rawBytes (o1 + 2) = 1 \<and>
          decodeDnsName
            (slice rawBytes (o1 + 10) (o1 + 10 + nat (shiftOr16 rawBytes (o1 + 8)))) 0 = Inl e \<longrightarrow>
            parseDnsRrSet_loop rawBytes owner start records out =
              (records @ rrs, o1 + 10 + nat (shiftOr16 rawBytes (o1 + 8)),
               out @ lines @ (if nm \<noteq> owner then [warnLine nm owner] else []) @
                 [ConsoleError (message e) (o1 + 10 + nat (shiftOr16 rawBytes (o1 + 8)))]) \<and>
            (start = 0 \<and> decodeDnsName eventOwnerName 0 = Inr (owner, n) \<longrightarrow>
               parseDnsRrSet rawBytes eventOwnerName =
                 Inr (rrs, lines @ (if nm \<noteq> owner then [warnLine nm owner] else []) @
                   [ConsoleError (message e) (o1 + 10 + nat (shiftOr16 rawBytes (o1 + 8)))])))"
proof -
  note run = parseDnsRrSet_loop_pushes [OF assms(1)]
  note pass = parseDnsRrSet_loop_pass_throws [OF assms(2), of e owner _ _ nm o1]
  show ?thesis
  proof (intro conjI impI)
    assume d: "decodeDnsName rawBytes offset = Inl e"
    show l: "parseDnsRrSet_loop rawBytes owner start records out =
              (records @ rrs, offset, out @ lines @ [ConsoleError (message e) offset])"
      for records out
      unfolding run using pass d by simp
    assume "start = 0 \<and> decodeDnsName eventOwnerName 0 = Inr (owner, n)"
    then show "parseDnsRrSet rawBytes eventOwnerName =
                 Inr (rrs, lines @ [ConsoleError (message e) offset])"
      using parseDnsRrSet_from_loop [of eventOwnerName owner n rawBytes] l [of "[]" "[]"]
      by simp
  next
    let ?end = "o1 + 10 + nat (shiftOr16 rawBytes (o1 + 8))"
    let ?w = "if nm \<noteq> owner then [warnLine nm owner] else []"
    assume a: "decodeDnsName rawBytes offset = Inr (nm, o1) \<and>
          o1 + 10 \<le> length rawBytes \<and> ?end \<le> length rawBytes \<and>
          shiftOr16 rawBytes o1 = 2 \<and> shiftOr16 rawBytes (o1 + 2) = 1 \<and>
          decodeDnsName (slice rawBytes (o1 + 10) ?end) 0 = Inl e"
    show l: "parseDnsRrSet_loop rawBytes owner start records out =
              (records @ rrs, ?end, out @ lines @ ?w @ [ConsoleError (message e) ?end])"
      for records out
      unfolding run using pass a by simp
    assume "start = 0 \<and> decodeDnsName eventOwnerName 0 = Inr (owner, n)"
    then show "parseDnsRrSet rawBytes eventOwnerName =
                 Inr (rrs, lines @ ?w @ [ConsoleError (message e) ?end])"
      using parseDnsRrSet_from_loop [of eventOwnerName owner n rawBytes] l [of "[]" "[]"]
      by simp
  qed
qed

text \<open>
  The records of scenarios A and B followed by a label that declares five bytes where
  one follows, as an owner name and as the RDATA of an NS record of the root: both
  records are returned.
\<close>

theorem parseDnsRrSet_error_logged_witness:
  "parseDnsRrSet (scenarioA @ scenarioB @ [0x05, 0x61])
     [0x03, 0x6d, 0x6f, 0x65, 0x03, 0x62, 0x6f, 0x78, 0x00] =
     Inr ([scenarioA_rr, scenarioB_rr],
          [warnLine ''bookings.ohms.box.'' ''moe.box.'',
           ConsoleError ''Buffer too short for DnsName label'' 77]) \<and>
   parseDnsRrSet
     (scenarioA @ scenarioB @
        [0x00, 0x00, 0x02, 0x00, 0x01, 0x00, 0x00, 0x00, 0x00, 0x00, 0x02, 0x05, 0x61])
     [0x03, 0x6d, 0x6f, 0x65, 0x03, 0x62, 0x6f, 0x78, 0x00] =
     Inr ([scenarioA_rr, scenarioB_rr],
          [warnLine ''bookings.ohms.box.'' ''moe.box.'', warnLine [] ''moe.box.'',
           ConsoleError ''Buffer too short for DnsName label'' 90])"
proof -
  let ?X = "scenarioA @ scenarioB @ [0x05, 0x61]"
  let ?Y = "scenarioA @ scenarioB @
        [0x00, 0x00, 0x02, 0x00, 0x01, 0x00, 0x00, 0x00, 0x00, 0x00, 0x02, 0x05, 0x61]"
  let ?e = "Error ''Buffer too short for DnsName label''"
  have m: "decodeDnsName [0x03, 0x6d, 0x6f, 0x65, 0x03, 0x62, 0x6f, 0x78, 0x00] 0 =
             Inr (''moe.box.'', 9)"
    by code_simp
  have x1: "parseDnsRrSet_body ?X ''moe.box.'' 0 = Pushed scenarioA_rr 44 []" by code_simp
  have x2: "parseDnsRrSet_body ?X ''moe.box.'' 44 =
              Pushed scenarioB_rr 77 [warnLine ''bookings.ohms.box.'' ''moe.box.'']"
    by code_simp
  have x3: "decodeDnsName ?X 77 = Inl ?e" by code_simp
  have px: "parseDnsRrSet_pushes ?X ''moe.box.'' 0 [scenarioA_rr, scenarioB_rr]
              [warnLine ''bookings.ohms.box.'' ''moe.box.''] 77"
    using parseDnsRrSet_pushes_two [OF x1 _ x2] by simp
  have lx: "77 < length ?X" by simp
  have 1: "parseDnsRrSet ?X [0x03, 0x6d, 0x6f, 0x65, 0x03, 0x62, 0x6f, 0x78, 0x00] =
     Inr ([scenarioA_rr, scenarioB_rr],
          [warnLine ''bookings.ohms.box.'' ''moe.box.'',
           ConsoleError ''Buffer too short for DnsName label'' 77])"
    using parseDnsRrSet_error_logged [OF px lx, of ?e "[]" "[]"
            "[0x03, 0x6d, 0x6f, 0x65, 0x03, 0x62, 0x6f, 0x78, 0x00]" 9] x3 m
    by simp
  have y1: "parseDnsRrSet_body ?Y ''moe.box.'' 0 = Pushed scenarioA_rr 44 []" by code_simp
  have y2: "parseDnsRrSet_body ?Y ''moe.box.'' 44 =
              Pushed scenarioB_rr 77 [warnLine ''bookings.ohms.box.'' ''moe.box.'']"
    by code_simp
  have y3: "decodeDnsName ?Y 77 = Inr ([], 78)" by code_simp
  have y4: "shiftOr16 ?Y 78 = 2" "shiftOr16 ?Y (78 + 2) = 1" "shiftOr16 ?Y (78 + 8) = 2"
    by code_simp+
  have y5: "decodeDnsName (slice ?Y 88 90) 0 = Inl ?e" by code_simp
  have py: "parseDnsRrSet_pushes ?Y ''moe.box.'' 0 [scenarioA_rr, scenarioB_rr]
              [warnLine ''bookings.ohms.box.'' ''moe.box.''] 77"
    using parseDnsRrSet_pushes_two [OF y1 _ y2] by simp
  have ly: "77 < length ?Y" by simp
  have 2: "parseDnsRrSet ?Y [0x03, 0x6d, 0x6f, 0x65, 0x03, 0x62, 0x6f, 0x78, 0x00] =
     Inr ([scenarioA_rr, scenarioB_rr],
          [warnLine ''bookings.ohms.box.'' ''moe.box.'', warnLine [] ''moe.box.'',
           ConsoleError ''Buffer too short for DnsName label'' 90])"
    using parseDnsRrSet_error_logged [OF py ly, of ?e "[]" "[]"
            "[0x03, 0x6d, 0x6f, 0x65, 0x03, 0x62, 0x6f, 0x78, 0x00]" 9 "[]" 78] y3 y4 y5 m
    by simp
  from 1 2 show ?thesis by blast
qed

text \<open>
  The claim as stated fails: the buffer \<^verbatim>\<open>05 61\<close> ends the pass with an error, the
  empty buffer ends it cleanly, and \<^verbatim>\<open>parseDnsRrSet\<close> returns the same empty array for
  both (the first component of the pair); only the console differs.
\<close>

theorem parseDnsRrSet_error_not_returned_counterexample:
  "decodeDnsName [0x05, 0x61] 0 = Inl (Error ''Buffer too short for DnsName label'') \<and>
   parseDnsRrSet [0x05, 0x61] [0x00] =
     Inr ([], [ConsoleError ''Buffer too short for DnsName label'' 0]) \<and>
   parseDnsRrSet [] [0x00] = Inr ([], []) \<and>
   map_sum id fst (parseDnsRrSet [0x05, 0x61] [0x00]) = map_sum id fst (parseDnsRrSet [] [0x00])"
  by code_simp

text \<open>
  C5. When, behind the owner name, reading type, class, ttl or RDLENGTH, or the RDATA that
  RDLENGTH declares, would pass the end of the buffer, the loop stops and
  \<^verbatim>\<open>parseDnsRrSet\<close> returns exactly the records pushed by the passes before, in their
  order, with no record for the one read in part; the offset stays where the last
  complete field ended. The empty buffer gives the empty sequence of records and nothing
  on the console.
\<close>

theorem parseDnsRrSet_truncation:
  assumes "parseDnsRrSet_pushes rawBytes owner start rrs lines offset"
  shows "(offset < length rawBytes \<and> decodeDnsName rawBytes offset = Inr (nm, o1) \<and>
    (length rawBytes < o1 + 2 \<or> length rawBytes < o1 + 4 \<or> length rawBytes < o1 + 8 \<or>
     length rawBytes < o1 + 10 \<or>
     int (length rawBytes) < int (o1 + 10) + shiftOr16 rawBytes (o1 + 8)) \<longrightarrow>
      parseDnsRrSet_loop rawBytes owner start records out =
        (records @ rrs,
         if length rawBytes < o1 + 2 then o1
         else if length rawBytes < o1 + 4 then o1 + 2
         else if length rawBytes < o1 + 8 then o1 + 4
         else if length rawBytes < o1 + 10 then o1 + 8
         else o1 + 10,
         out @ lines @ (if nm \<noteq> owner then [warnLine nm owner] else [])) \<and>
      (start = 0 \<and> decodeDnsName eventOwnerName 0 = Inr (owner, n) \<longrightarrow>
         parseDnsRrSet rawBytes eventOwnerName =
           Inr (rrs, lines @ (if nm \<noteq> owner then [warnLine nm owner] else [])))) \<and>
   parseDnsRrSet_loop [] owner 0 [] [] = ([], 0, []) \<and>
   (decodeDnsName eventOwnerName 0 = Inr (owner, n) \<longrightarrow>
      parseDnsRrSet [] eventOwnerName = Inr ([], []))"
proof -
  note run = parseDnsRrSet_loop_pushes [OF assms(1)]
  note pass = parseDnsRrSet_loop_pass_truncated [of offset rawBytes nm o1 owner _ _ eventOwnerName n]
  show ?thesis
  proof (intro conjI impI)
    let ?off = "if length rawBytes < o1 + 2 then o1
         else if length rawBytes < o1 + 4 then o1 + 2
         else if length rawBytes < o1 + 8 then o1 + 4
         else if length rawBytes < o1 + 10 then o1 + 8
         else o1 + 10"
    let ?w = "if nm \<noteq> owner then [warnLine nm owner] else []"
    assume a: "offset < length rawBytes \<and> decodeDnsName rawBytes offset = Inr (nm, o1) \<and>
      (length rawBytes < o1 + 2 \<or> length rawBytes < o1 + 4 \<or> length rawBytes < o1 + 8 \<or>
       length rawBytes < o1 + 10 \<or>
       int (length rawBytes) < int (o1 + 10) + shiftOr16 rawBytes (o1 + 8))"
    have l: "parseDnsRrSet_loop rawBytes owner start records out =
               (records @ rrs, ?off, out @ lines @ ?w)"
      for records out
    proof -
      from a pass [of "records @ rrs" "out @ lines"]
      have "parseDnsRrSet_loop rawBytes owner offset (records @ rrs) (out @ lines) =
              (records @ rrs, ?off, (out @ lines) @ ?w)"
        by blast
      then show ?thesis unfolding run by simp
    qed
    show "parseDnsRrSet_loop rawBytes owner start records out =
               (records @ rrs, ?off, out @ lines @ ?w)"
      by (rule l)
    assume "start = 0 \<and> decodeDnsName eventOwnerName 0 = Inr (owner, n)"
    then show "parseDnsRrSet rawBytes eventOwnerName = Inr (rrs, lines @ ?w)"
      using parseDnsRrSet_from_loop [of eventOwnerName owner n rawBytes] l [of "[]" "[]"]
      by simp
  next
    show "parseDnsRrSet_loop [] owner 0 [] [] = ([], 0, [])"
      using pass by blast
  next
    assume "decodeDnsName eventOwnerName 0 = Inr (owner, n)"
    then show "parseDnsRrSet [] eventOwnerName = Inr ([], [])"
      using pass by blast
  qed
qed

text \<open>
  The records of scenarios A and B followed by the owner name \<^verbatim>\<open>a.\<close> and one byte of
  the type field: both records are returned.
\<close>

theorem parseDnsRrSet_truncation_witness:
  "parseDnsRrSet (scenarioA @ scenarioB @ [0x01, 0x61, 0x00, 0x00])
     [0x03, 0x6d, 0x6f, 0x65, 0x03, 0x62, 0x6f, 0x78, 0x00] =
     Inr ([scenarioA_rr, scenarioB_rr],
          [warnLine ''bookings.ohms.box.'' ''moe.box.'', warnLine ''a.'' ''moe.box.'']) \<and>
   parseDnsRrSet_loop (scenarioA @ scenarioB @ [0x01, 0x61, 0x00, 0x00]) ''moe.box.'' 0 [] [] =
     ([scenarioA_rr, scenarioB_rr], 80,
      [warnLine ''bookings.ohms.box.'' ''moe.box.'', warnLine ''a.'' ''moe.box.'']) \<and>
   parseDnsRrSet [] [0x03, 0x6d, 0x6f, 0x65, 0x03, 0x62, 0x6f, 0x78, 0x00] = Inr ([], [])"
proof -
  let ?X = "scenarioA @ scenarioB @ [0x01, 0x61, 0x00, 0x00]"
  have m: "decodeDnsName [0x03, 0x6d, 0x6f, 0x65, 0x03, 0x62, 0x6f, 0x78, 0x00] 0 =
             Inr (''moe.box.'', 9)"
    by code_simp
  have x1: "parseDnsRrSet_body ?X ''moe.box.'' 0 = Pushed scenarioA_rr 44 []" by code_simp
  have x2: "parseDnsRrSet_body ?X ''moe.box.'' 44 =
              Pushed scenarioB_rr 77 [warnLine ''bookings.ohms.box.'' ''moe.box.'']"
    by code_simp
  have x3: "decodeDnsName ?X 77 = Inr (''a.'', 80)" by code_simp
  have px: "parseDnsRrSet_pushes ?X ''moe.box.'' 0 [scenarioA_rr, scenarioB_rr]
              [warnLine ''bookings.ohms.box.'' ''moe.box.''] 77"
    using parseDnsRrSet_pushes_two [OF x1 _ x2] by simp
  note t = parseDnsRrSet_truncation [OF px, of "''a.''" 80 "[]" "[]"
            "[0x03, 0x6d, 0x6f, 0x65, 0x03, 0x62, 0x6f, 0x78, 0x00]" 9]
  have 1: "parseDnsRrSet ?X [0x03, 0x6d, 0x6f, 0x65, 0x03, 0x62, 0x6f, 0x78, 0x00] =
     Inr ([scenarioA_rr, scenarioB_rr],
          [warnLine ''bookings.ohms.box.'' ''moe.box.'', warnLine ''a.'' ''moe.box.''])"
    using t x3 m by simp
  have 2: "parseDnsRrSet_loop ?X ''moe.box.'' 0 [] [] =
     ([scenarioA_rr, scenarioB_rr], 80,
      [warnLine ''bookings.ohms.box.'' ''moe.box.'', warnLine ''a.'' ''moe.box.''])"
    using t x3 by simp
  have 3: "parseDnsRrSet [] [0x03, 0x6d, 0x6f, 0x65, 0x03, 0x62, 0x6f, 0x78, 0x00] = Inr ([], [])"
    using t m by simp
  from 1 2 3 show ?thesis by blast
qed



text \<open>
  C7 (the code departs from the claim). Type, class and RDLENGTH are the unsigned 16-bit
  big-endian numbers of their two bytes (\<open>shiftOr16_value\<close>), but the TTL is assembled
  with \<^verbatim>\<open><<\<close> and \<^verbatim>\<open>|\<close>, whose result is a signed 32-bit number
  (\<open>shiftOr32_value\<close>): the TTL bytes \<^verbatim>\<open>ff ff ff ff\<close> of an A record for \<^verbatim>\<open>a.\<close>
  decode to \<open>-1\<close>, not to 4294967295.
\<close>

theorem parseDnsRrSet_ttl_negative:
  "parseDnsRrSet
     [0x01, 0x61, 0x00, 0x00, 0x01, 0x00, 0x01, 0xff, 0xff, 0xff, 0xff, 0x00, 0x04,
      0x7f, 0x00, 0x00, 0x01]
     [0x01, 0x61, 0x00] =
   Inr ([\<lparr>rr_name = Some ''a.'', rr_type = Some 1, rr_class = Some 1,
            rr_ttl = Some (- 1), rr_rdata = Some ''0x7f000001''\<rparr>], [])"
  by code_simp

text \<open>
  C9. The decode loop returns on every buffer: the loop written with no assumption on
  its termination has the result of \<^verbatim>\<open>parseDnsRrSet_loop\<close>. A pass either leaves the
  loop or goes on with the offset at least eleven bytes further, never behind the end of
  the buffer; the final offset is not below the initial one, and every record pushed
  accounts for eleven bytes of progress. The loop of the test script, with its guard
  against a record of length zero, returns as well, whatever the library functions give.
\<close>

theorem parseDnsRrSet_loop_terminates:
  "parseDnsRrSet_while rawBytes owner offset records out =
     Some (parseDnsRrSet_loop rawBytes owner offset records out) \<and>
   (offset < length rawBytes \<longrightarrow>
      (case parseDnsRrSet_body rawBytes owner offset of
         Truncated off lines \<Rightarrow> offset < off \<and> off \<le> length rawBytes
       | Threw e off lines \<Rightarrow> offset \<le> off \<and> off \<le> length rawBytes
       | Pushed r off lines \<Rightarrow> offset + 11 \<le> off \<and> off \<le> length rawBytes)) \<and>
   (\<forall>records' off out'.
      parseDnsRrSet_loop rawBytes owner offset records out = (records', off, out') \<longrightarrow>
        offset \<le> off \<and> off \<le> max offset (length rawBytes) \<and>
        offset + 11 * (length records' - length records) \<le> off) \<and>
   (\<exists>result. testDnsPacketLib_while decode encodingLength recordsBuffer offset' decodedRecords
      = Some result)"
proof (intro conjI allI impI)
  show "parseDnsRrSet_while rawBytes owner offset records out =
     Some (parseDnsRrSet_loop rawBytes owner offset records out)"
    by (rule parseDnsRrSet_while_returns)
next
  assume "offset < length rawBytes"
  then show "case parseDnsRrSet_body rawBytes owner offset of
         Truncated off lines \<Rightarrow> offset < off \<and> off \<le> length rawBytes
       | Threw e off lines \<Rightarrow> offset \<le> off \<and> off \<le> length rawBytes
       | Pushed r off lines \<Rightarrow> offset + 11 \<le> off \<and> off \<le> length rawBytes"
    by (rule parseDnsRrSet_body_offset)
next
  fix records' off out'
  assume l: "parseDnsRrSet_loop rawBytes owner offset records out = (records', off, out')"
  from parseDnsRrSet_loop_result [OF l]
  show "offset \<le> off" "off \<le> max offset (length rawBytes)"
    "offset + 11 * (length records' - length records) \<le> off"
    by auto
next
  show "\<exists>result. testDnsPacketLib_while decode encodingLength recordsBuffer offset' decodedRecords
      = Some result"
    by (rule testDnsPacketLib_while_returns)
qed

theorem parseDnsRrSet_loop_terminates_witness:
  "parseDnsRrSet_while scenarioA ''moe.box.'' 0 [] [] = Some ([scenarioA_rr], 44, []) \<and>
   parseDnsRrSet_body scenarioA ''moe.box.'' 0 = Pushed scenarioA_rr 44 [] \<and>
   (0::nat) + 11 \<le> 44 \<and> (44::nat) \<le> length scenarioA \<and>
   (0::nat) + 11 * (length [scenarioA_rr] - length ([] :: rr list)) \<le> 44"
proof -
  note t = parseDnsRrSet_loop_terminates [of scenarioA "''moe.box.''" 0 "[]" "[]"]
  have "parseDnsRrSet_while scenarioA ''moe.box.'' 0 [] [] = Some ([scenarioA_rr], 44, [])"
    using t unfolding scenarioA_loop by blast
  moreover have "(0::nat) + 11 \<le> 44 \<and> (44::nat) \<le> length scenarioA"
    using t unfolding scenarioA_body by simp
  moreover have "(0::nat) + 11 * (length [scenarioA_rr] - length ([] :: rr list)) \<le> 44"
    using t scenarioA_loop by blast
  ultimately show ?thesis using scenarioA_body by blast
qed

text \<open>
  C10. Every record returned has all five fields set: its owner name, type, class and ttl
  are the values read at one offset of the buffer, the ten bytes of fixed fields and the
  RDLENGTH bytes of RDATA behind the owner name lie inside the buffer, and its RDATA is
  present.
\<close>

theorem parseDnsRrSet_records_complete:
  assumes "parseDnsRrSet rawBytes eventOwnerName = Inr (records, out)" "r \<in> set records"
  shows "\<exists>offset nm o1 rdata. offset < length rawBytes \<and>
           decodeDnsName rawBytes offset = Inr (nm, o1) \<and>
           o1 + 10 + nat (shiftOr16 rawBytes (o1 + 8)) \<le> length rawBytes \<and>
           r = \<lparr>rr_name = Some nm, rr_type = Some (shiftOr16 rawBytes o1),
                 rr_class = Some (shiftOr16 rawBytes (o1 + 2)),
                 rr_ttl = Some (shiftOr32 rawBytes (o1 + 4)), rr_rdata = Some rdata\<rparr>"
proof -
  from parseDnsRrSet_records [OF assms] obtain owner offset off lines where
    c: "offset < length rawBytes" and
    b: "parseDnsRrSet_body rawBytes owner offset = Pushed r off lines"
    by blast
  from parseDnsRrSet_body_fields [OF b] obtain nm o1 where
    f: "decodeDnsName rawBytes offset = Inr (nm, o1)"
       "off = o1 + 10 + nat (shiftOr16 rawBytes (o1 + 8))" "off \<le> length rawBytes"
       "rr_name r = Some nm" "rr_type r = Some (shiftOr16 rawBytes o1)"
       "rr_class r = Some (shiftOr16 rawBytes (o1 + 2))"
       "rr_ttl r = Some (shiftOr32 rawBytes (o1 + 4))"
       "if shiftOr16 rawBytes o1 = 2 \<and> shiftOr16 rawBytes (o1 + 2) = 1
        then \<exists>nm2 n. decodeDnsName (slice rawBytes (o1 + 10) off) 0 = Inr (nm2, n) \<and>
               rr_rdata r = Some nm2
        else rr_rdata r = Some (hexlify (slice rawBytes (o1 + 10) off))"
    by blast
  from f(8) obtain rdata where rd: "rr_rdata r = Some rdata"
    by (auto split: if_splits)
  have "r = \<lparr>rr_name = Some nm, rr_type = Some (shiftOr16 rawBytes o1),
                 rr_class = Some (shiftOr16 rawBytes (o1 + 2)),
                 rr_ttl = Some (shiftOr32 rawBytes (o1 + 4)), rr_rdata = Some rdata\<rparr>"
    using f(4-7) rd by (cases r) simp
  with c f(1-3) show ?thesis by blast
qed

theorem parseDnsRrSet_records_complete_witness:
  "\<exists>offset nm o1 rdata. offset < length scenarioA \<and>
           decodeDnsName scenarioA offset = Inr (nm, o1) \<and>
           o1 + 10 + nat (shiftOr16 scenarioA (o1 + 8)) \<le> length scenarioA \<and>
           scenarioA_rr = \<lparr>rr_name = Some nm, rr_type = Some (shiftOr16 scenarioA o1),
                 rr_class = Some (shiftOr16 scenarioA (o1 + 2)),
                 rr_ttl = Some (shiftOr32 scenarioA (o1 + 4)), rr_rdata = Some rdata\<rparr>"
proof -
  have a: "scenarioA_rr \<in> set [scenarioA_rr]" by simp
  from parseDnsRrSet_records_complete [OF scenarioA_run a] show ?thesis .
qed

end
